theory Spec2Isabelle
  imports Main "HOL-Library.FSet" "HOL-Library.AList" "HOL-Library.Product_Lexorder"
begin

section \<open>Data model of \<open>graph_csp.py\<close>\<close>

text \<open>
  Variables and colours are Python integers (\<open>int\<close>).  A domain is a Python \<open>set\<close> of
  colours, modelled as a finite set \<open>int fset\<close>.  The dictionaries \<open>domains\<close> and
  \<open>assignment\<close> are association lists in insertion order: \<open>d[k] = v\<close> is
  \<open>AList.update k v d\<close> (an existing key keeps its place, a new one goes to the end),
  \<open>d[k]\<close> is \<open>map_of d k\<close> and raises \<open>KeyError\<close> where that is \<open>None\<close>, \<open>del d[k]\<close> is
  \<open>AList.delete k d\<close>.  The adjacency is only ever read through \<open>adj.get(v, [])\<close>, so it
  is a partial map to neighbour lists.  The trail is a Python list that grows and shrinks
  at its end.

  Iterating a Python set of integers visits its elements in an order the language does
  not fix; the model visits them in ascending order (\<open>set_iter\<close>).  No result below depends
  on that order except the order of entries on the trail.

  A function that can raise returns a sum: \<open>Inl e\<close> is the exception \<open>e\<close> leaving the function,
  \<open>Inr r\<close> its normal result \<open>r\<close>.  Functions that mutate \<open>domains\<close>, \<open>assignment\<close> or \<open>trail\<close>
  return the new values beside their result.  Python integers are unbounded, as \<open>int\<close> is.
  The recursion of \<open>backtrack\<close> is as deep as the number of variables; the recursion limit of
  the interpreter is not modelled.
\<close>

type_synonym domains = "(int \<times> int fset) list"
type_synonym trail = "(int \<times> int) list"
type_synonym assignment = "(int \<times> int) list"
type_synonym adjacency = "int \<Rightarrow> int list option"

datatype error = KeyError int

definition adj_get :: "adjacency \<Rightarrow> int \<Rightarrow> int list" where
  "adj_get adj v = (case adj v of None \<Rightarrow> [] | Some ns \<Rightarrow> ns)"

definition set_iter :: "int fset \<Rightarrow> int list" where
  "set_iter s = sorted_list_of_fset s"

section \<open>Domain store: trailed removal and rollback\<close>

text \<open>
  The loop \<open>for val in vals: domains[X].remove(val); trail.append((X, val))\<close>
  (lines 73-75 and 140-142).  \<open>set.remove\<close> raises \<open>KeyError\<close> on a missing element.
\<close>

fun remove_values :: "int \<Rightarrow> int list \<Rightarrow> domains \<Rightarrow> trail \<Rightarrow> error + (domains \<times> trail)" where
  "remove_values X [] domains trail = Inr (domains, trail)"
| "remove_values X (val # vals) domains trail =
     (case map_of domains X of
        None \<Rightarrow> Inl (KeyError X)
      | Some d \<Rightarrow>
          if val |\<in>| d
          then remove_values X vals (AList.update X (d |-| {|val|}) domains) (trail @ [(X, val)])
          else Inl (KeyError val))"

text \<open>
  The rollback loop of \<open>backtrack\<close> (lines 156-159):
  \<open>while len(trail) > trail_snapshot: v, val = trail.pop(); if val not in domains[v]: domains[v].add(val)\<close>.
\<close>

function restore_to :: "nat \<Rightarrow> domains \<Rightarrow> trail \<Rightarrow> error + (domains \<times> trail)" where
  "restore_to trail_snapshot domains trail =
     (if length trail > trail_snapshot then
        (case last trail of (v, val) \<Rightarrow>
           (case map_of domains v of
              None \<Rightarrow> Inl (KeyError v)
            | Some d \<Rightarrow>
                restore_to trail_snapshot
                  (if val |\<notin>| d then AList.update v (finsert val d) domains else domains)
                  (butlast trail)))
      else Inr (domains, trail))"
  by pat_completeness auto
termination
  by (relation "measure (\<lambda>(m, d, t). length t)") auto

section \<open>Arc consistency\<close>

text \<open>\<open>revise\<close> (lines 58-77).  The removals are collected first and applied afterwards.\<close>

definition revise :: "int \<Rightarrow> int \<Rightarrow> domains \<Rightarrow> adjacency \<Rightarrow> trail \<Rightarrow> error + (bool \<times> domains \<times> trail)" where
  "revise X Y domains adj trail =
     (case map_of domains X of
        None \<Rightarrow> Inl (KeyError X)
      | Some domX \<Rightarrow>
          (case map_of domains Y of
             None \<Rightarrow> Inl (KeyError Y)
           | Some domY \<Rightarrow>
               (let to_remove = filter (\<lambda>x. fcard domY = 1 \<and> hd (set_iter domY) = x) (set_iter domX)
                in if to_remove \<noteq> [] then
                     (case remove_values X to_remove domains trail of
                        Inl e \<Rightarrow> Inl e
                      | Inr (domains', trail') \<Rightarrow> Inr (True, domains', trail'))
                   else Inr (False, domains, trail))))"

text \<open>Sum of all domain sizes: the quantity that a successful revision decreases.\<close>

definition total_size :: "domains \<Rightarrow> nat" where
  "total_size domains = sum_list (map (\<lambda>(v, d). fcard d) domains)"

lemma total_size_update:
  assumes "map_of domains X = Some d"
  shows "total_size (AList.update X d' domains) + fcard d = total_size domains + fcard d'"
  using assms
  by (induction domains) (auto simp: total_size_def split: if_splits)

lemma remove_values_total_size:
  "remove_values X vals domains trail = Inr (domains', trail') \<Longrightarrow>
     total_size domains' + length vals = total_size domains"
proof (induction vals arbitrary: domains trail)
  case Nil
  then show ?case by simp
next
  case (Cons val vals)
  from Cons.prems obtain d where d: "map_of domains X = Some d" "val |\<in>| d"
    and rest: "remove_values X vals (AList.update X (d |-| {|val|}) domains) (trail @ [(X, val)])
                 = Inr (domains', trail')"
    by (auto split: option.splits if_splits)
  from Cons.IH [OF rest]
  have "total_size domains' + length vals = total_size (AList.update X (d |-| {|val|}) domains)" .
  moreover from total_size_update [OF d(1), of "d |-| {|val|}"] fcard_Suc_fminus1 [OF d(2)]
  have "total_size (AList.update X (d |-| {|val|}) domains) + 1 = total_size domains"
    by simp
  ultimately show ?case by simp
qed

lemma revise_total_size:
  assumes "revise X Y domains adj trail = Inr (True, domains', trail')"
  shows "total_size domains' < total_size domains"
proof -
  from assms obtain vals where "vals \<noteq> []"
    and "remove_values X vals domains trail = Inr (domains', trail')"
    by (auto simp: revise_def Let_def split: option.splits if_splits sum.splits)
  with remove_values_total_size show ?thesis
    by (cases vals) fastforce+
qed

text \<open>
  \<open>ac3\<close> (lines 79-94).  The work queue is a deque read at its left end and extended at
  its right end.
\<close>

function ac3 :: "(int \<times> int) list \<Rightarrow> domains \<Rightarrow> adjacency \<Rightarrow> trail \<Rightarrow> error + (bool \<times> domains \<times> trail)" where
  "ac3 [] domains adj trail = Inr (True, domains, trail)"
| "ac3 ((Xi, Xj) # queue) domains adj trail =
     (case revise Xi Xj domains adj trail of
        Inl e \<Rightarrow> Inl e
      | Inr (revised, domains', trail') \<Rightarrow>
          if revised then
            (case map_of domains' Xi of
               None \<Rightarrow> Inl (KeyError Xi)
             | Some d \<Rightarrow>
                 if fcard d = 0 then Inr (False, domains', trail')
                 else ac3 (queue @ map (\<lambda>Xk. (Xk, Xi)) (filter (\<lambda>Xk. Xk \<noteq> Xj) (adj_get adj Xi)))
                        domains' adj trail')
          else ac3 queue domains' adj trail')"
  by pat_completeness auto
lemma ac3_terminates: "All ac3_dom"
proof (relation "(\<lambda>(q, d, a, t). total_size d) <*mlex*> measure (\<lambda>(q, d, a, t). length q)",
    goal_cases)
  case 1
  then show ?case by (simp add: wf_mlex)
next
  case (2 Xi Xj queue domains adj trail x2 revised y domains' trail' d)
  then show ?case
    by (auto intro!: mlex_less dest: revise_total_size)
next
  case (3 Xi Xj queue domains adj trail x2 revised y domains' trail')
  then have "domains' = domains"
    by (auto simp: revise_def Let_def split: option.splits if_splits sum.splits)
  then show ?case
    by (auto intro!: mlex_leq)
qed

termination ac3
  by (rule ac3_terminates)

text \<open>None of the operations on the domain store changes the keys of \<open>domains\<close>.\<close>

lemma update_keys_same:
  "map_of al k = Some v \<Longrightarrow> map fst (AList.update k v' al) = map fst al"
  by (induction al) (auto split: if_splits)

lemma remove_values_keys:
  "remove_values X vals domains trail = Inr (domains', trail') \<Longrightarrow> map fst domains' = map fst domains"
proof (induction vals arbitrary: domains trail)
  case Nil
  then show ?case by simp
next
  case (Cons val vals)
  then show ?case
    by (fastforce split: option.splits if_splits simp: update_keys_same)
qed

lemma revise_keys:
  "revise X Y domains adj trail = Inr (b, domains', trail') \<Longrightarrow> map fst domains' = map fst domains"
  by (auto simp: revise_def Let_def split: option.splits if_splits sum.splits dest: remove_values_keys)

lemma ac3_keys:
  "ac3 queue domains adj trail = Inr (b, domains', trail') \<Longrightarrow> map fst domains' = map fst domains"
proof (induction queue domains adj trail rule: ac3.induct)
  case (1 domains adj trail)
  then show ?case by simp
next
  case (2 Xi Xj queue domains adj trail)
  from "2.prems" obtain r d1 t1 where rev: "revise Xi Xj domains adj trail = Inr (r, d1, t1)"
    by (auto split: sum.splits)
  note k1 = revise_keys [OF rev]
  show ?case
  proof (cases r)
    case True
    with "2.prems" rev obtain D where D: "map_of d1 Xi = Some D"
      by (auto split: option.splits)
    show ?thesis
    proof (cases "fcard D = 0")
      case True
      with "2.prems" rev \<open>r\<close> D k1 show ?thesis by auto
    next
      case False
      with "2.prems" rev \<open>r\<close> D
      have "ac3 (queue @ map (\<lambda>Xk. (Xk, Xi)) (filter (\<lambda>Xk. Xk \<noteq> Xj) (adj_get adj Xi))) d1 adj t1
              = Inr (b, domains', trail')" by simp
      from "2.IH"(1) [OF rev refl refl \<open>r\<close> D False this] k1 show ?thesis by simp
    qed
  next
    case False
    with "2.prems" rev have "ac3 queue d1 adj t1 = Inr (b, domains', trail')" by simp
    from "2.IH"(2) [OF rev refl refl False this] k1 show ?thesis by simp
  qed
qed

lemma restore_to_keys:
  "restore_to m domains trail = Inr (domains', trail') \<Longrightarrow> map fst domains' = map fst domains"
proof (induction m domains trail rule: restore_to.induct)
  case (1 m domains trail)
  show ?case
  proof (cases "length trail > m")
    case True
    obtain v val where lt: "last trail = (v, val)" by (cases "last trail")
    with "1.prems" True obtain d where d: "map_of domains v = Some d"
      by (auto split: option.splits)
    let ?d1 = "if val |\<notin>| d then AList.update v (finsert val d) domains else domains"
    from "1.prems" True lt d have "restore_to m ?d1 (butlast trail) = Inr (domains', trail')"
      by (simp del: restore_to.simps add: restore_to.simps [of m domains trail])
    from "1.IH" [OF True lt [symmetric] d this] have "map fst domains' = map fst ?d1" .
    also have "\<dots> = map fst domains" using d by (simp add: update_keys_same)
    finally show ?thesis .
  next
    case False
    with "1.prems" show ?thesis by simp
  qed
qed

section \<open>Search heuristics\<close>

text \<open>
  \<open>select_unassigned_variable\<close> (lines 97-109).  Python sorts the pairs \<open>(len(dom), var)\<close>
  lexicographically, which is the order that the theory Product-Lexorder gives to pairs.
\<close>

definition select_unassigned_variable :: "domains \<Rightarrow> assignment \<Rightarrow> int option" where
  "select_unassigned_variable domains assignment =
     (let candidates = map (\<lambda>(var, dom). (fcard dom, var))
                         (filter (\<lambda>(var, dom). map_of assignment var = None) domains)
      in if candidates = [] then None else Some (snd (hd (sort candidates))))"

lemma select_unassigned_variable_Some:
  assumes "select_unassigned_variable domains assignment = Some var"
  shows "var \<in> fst ` set domains \<and> map_of assignment var = None"
proof -
  define c where "c = map (\<lambda>(var, dom). (fcard dom, var)) (filter (\<lambda>(var, dom). map_of assignment var = None) domains)"
  from assms have ne: "c \<noteq> []" and var: "var = snd (hd (sort c))"
    by (auto simp: select_unassigned_variable_def Let_def c_def split: if_splits)
  from ne have "set (sort c) \<noteq> {}" by simp
  then have "sort c \<noteq> []" by (metis set_empty)
  then have "hd (sort c) \<in> set (sort c)" by (rule hd_in_set)
  then have "hd (sort c) \<in> set c" by simp
  then obtain v D where "(v, D) \<in> set domains" "map_of assignment v = None" "hd (sort c) = (fcard D, v)"
    unfolding c_def by auto
  with var show ?thesis by force
qed

text \<open>
  \<open>order_domain_values\<close> (lines 111-127): the inner loop over the neighbours, the outer
  loop over the sorted domain, and the final sort of the pairs \<open>(eliminated, val)\<close>.
\<close>

fun count_eliminated :: "int list \<Rightarrow> int \<Rightarrow> domains \<Rightarrow> assignment \<Rightarrow> nat \<Rightarrow> error + nat" where
  "count_eliminated [] val domains assignment eliminated = Inr eliminated"
| "count_eliminated (nb # nbs) val domains assignment eliminated =
     (if map_of assignment nb \<noteq> None then count_eliminated nbs val domains assignment eliminated
      else (case map_of domains nb of
              None \<Rightarrow> Inl (KeyError nb)
            | Some d \<Rightarrow>
                count_eliminated nbs val domains assignment
                  (if val |\<in>| d then eliminated + 1 else eliminated)))"

fun lcv_counts :: "int list \<Rightarrow> int \<Rightarrow> domains \<Rightarrow> adjacency \<Rightarrow> assignment \<Rightarrow> error + (nat \<times> int) list" where
  "lcv_counts [] var domains adj assignment = Inr []"
| "lcv_counts (val # vals) var domains adj assignment =
     (case count_eliminated (adj_get adj var) val domains assignment 0 of
        Inl e \<Rightarrow> Inl e
      | Inr eliminated \<Rightarrow>
          (case lcv_counts vals var domains adj assignment of
             Inl e \<Rightarrow> Inl e
           | Inr counts \<Rightarrow> Inr ((eliminated, val) # counts)))"

definition order_domain_values :: "int \<Rightarrow> domains \<Rightarrow> adjacency \<Rightarrow> assignment \<Rightarrow> error + int list" where
  "order_domain_values var domains adj assignment =
     (case map_of domains var of
        None \<Rightarrow> Inl (KeyError var)
      | Some d \<Rightarrow>
          (case lcv_counts (sorted_list_of_fset d) var domains adj assignment of
             Inl e \<Rightarrow> Inl e
           | Inr counts \<Rightarrow> Inr (map snd (sort counts))))"

section \<open>Backtracking search\<close>

text \<open>\<open>any(len(domains[x]) == 0 for x in domains)\<close> (line 150, and the loop of lines 180-182).\<close>

definition empty_found :: "domains \<Rightarrow> bool" where
  "empty_found domains =
     list_ex (\<lambda>x. case map_of domains x of None \<Rightarrow> False | Some d \<Rightarrow> fcard d = 0) (map fst domains)"

text \<open>The variables of \<open>domains\<close> that have no entry in \<open>assignment\<close>.\<close>

definition unassigned :: "domains \<Rightarrow> assignment \<Rightarrow> int set" where
  "unassigned domains assignment = fst ` set domains - fst ` set assignment"

lemma unassigned_finite: "finite (unassigned d a)"
  by (simp add: unassigned_def)

text \<open>
  \<open>backtrack\<close> (lines 129-162).  The dictionaries and the trail are mutated in place, so
  the model returns them with the result.  \<open>try_values\<close> is the loop over the ordered
  values (lines 137-160); the list of values is computed once, before the loop.
\<close>

function backtrack :: "domains \<Rightarrow> adjacency \<Rightarrow> assignment \<Rightarrow> trail
                         \<Rightarrow> error + (bool \<times> domains \<times> assignment \<times> trail)"
  and try_values :: "int \<Rightarrow> int list \<Rightarrow> domains \<Rightarrow> adjacency \<Rightarrow> assignment \<Rightarrow> trail
                         \<Rightarrow> error + (bool \<times> domains \<times> assignment \<times> trail)" where
  "backtrack domains adj assignment trail =
     (if length assignment = length domains then Inr (True, domains, assignment, trail)
      else (case select_unassigned_variable domains assignment of
              None \<Rightarrow> Inr (False, domains, assignment, trail)
            | Some var \<Rightarrow>
                (case order_domain_values var domains adj assignment of
                   Inl e \<Rightarrow> Inl e
                 | Inr vals \<Rightarrow> try_values var vals domains adj assignment trail)))"
| "try_values var [] domains adj assignment trail = Inr (False, domains, assignment, trail)"
| "try_values var (value # rest) domains adj assignment trail =
     (case map_of domains var of
        None \<Rightarrow> Inl (KeyError var)
      | Some d \<Rightarrow>
          (case remove_values var (filter (\<lambda>v. v \<noteq> value) (set_iter d)) domains trail of
             Inl e \<Rightarrow> Inl e
           | Inr (domains1, trail1) \<Rightarrow>
               (case ac3 (map (\<lambda>nb. (nb, var)) (adj_get adj var)) domains1 adj trail1 of
                  Inl e \<Rightarrow> Inl e
                | Inr (consistent, domains2, trail2) \<Rightarrow>
                    (case (if consistent \<and> \<not> empty_found domains2
                           then backtrack domains2 adj (AList.update var value assignment) trail2
                           else Inr (False, domains2, AList.update var value assignment, trail2)) of
                       Inl e \<Rightarrow> Inl e
                     | Inr (result, domains3, assignment3, trail3) \<Rightarrow>
                         if result then Inr (True, domains3, assignment3, trail3)
                         else (case restore_to (length trail) domains3 trail3 of
                                 Inl e \<Rightarrow> Inl e
                               | Inr (domains4, trail4) \<Rightarrow>
                                   if map_of assignment3 var = None then Inl (KeyError var)
                                   else try_values var rest domains4 adj
                                          (AList.delete var assignment3) trail4)))))"
  by pat_completeness auto

text \<open>
  The second recursive call of \<open>try_values\<close> takes its state from the result of the call of
  \<open>backtrack\<close>, so termination needs a fact about that result first: wherever the search
  returns, it has kept the keys of \<open>domains\<close> and has not lost an assigned variable other
  than the one it is trying.
\<close>

lemma keys_update: "fst ` set (AList.update k v al) = insert k (fst ` set al)"
  by (induction al) auto

lemma keys_delete: "fst ` set (AList.delete k al) = fst ` set al - {k}"
  by (induction al) auto

lemma backtrack_try_values_keys_partial:
  "backtrack_try_values_dom (Inl (domains, adj, assignment, trail)) \<Longrightarrow>
     backtrack domains adj assignment trail = Inr (b, d', a', t') \<Longrightarrow>
     map fst d' = map fst domains \<and> fst ` set assignment \<subseteq> fst ` set a'"
  "backtrack_try_values_dom (Inr (var, vals, domains, adj, assignment, trail)) \<Longrightarrow>
     try_values var vals domains adj assignment trail = Inr (b, d', a', t') \<Longrightarrow>
     map fst d' = map fst domains \<and> fst ` set assignment - {var} \<subseteq> fst ` set a'"
proof (induction domains adj assignment trail and var vals domains adj assignment trail
    arbitrary: b d' a' t' and b d' a' t' rule: backtrack_try_values.pinduct)
  case (1 domains adj assignment trail)
  note eq = "1.prems" [unfolded backtrack.psimps [OF "1.hyps"]]
  show ?case
  proof (cases "length assignment = length domains")
    case True
    with eq show ?thesis by simp
  next
    case False
    show ?thesis
    proof (cases "select_unassigned_variable domains assignment")
      case None
      with eq False show ?thesis by simp
    next
      case (Some var)
      with eq False obtain vals where ord: "order_domain_values var domains adj assignment = Inr vals"
        and tv: "try_values var vals domains adj assignment trail = Inr (b, d', a', t')"
        by (auto split: sum.splits)
      from select_unassigned_variable_Some [OF Some] have "var \<notin> fst ` set assignment"
        by (simp add: map_of_eq_None_iff)
      with "1.IH" [OF False Some ord tv] show ?thesis by auto
    qed
  qed
next
  case (2 var domains adj assignment trail)
  then show ?case by (simp add: try_values.psimps)
next
  case (3 var "value" rest domains adj assignment trail)
  note eq = "3.prems" [unfolded try_values.psimps(2) [OF "3.hyps"]]
  from eq obtain d0 where d0: "map_of domains var = Some d0"
    by (cases "map_of domains var") auto
  from eq d0 obtain d1 t1 where rv:
    "remove_values var (filter (\<lambda>v. v \<noteq> value) (set_iter d0)) domains trail = Inr (d1, t1)"
    by (cases "remove_values var (filter (\<lambda>v. v \<noteq> value) (set_iter d0)) domains trail") auto
  from eq d0 rv obtain c d2 t2 where ac:
    "ac3 (map (\<lambda>nb. (nb, var)) (adj_get adj var)) d1 adj t1 = Inr (c, d2, t2)"
    by (cases "ac3 (map (\<lambda>nb. (nb, var)) (adj_get adj var)) d1 adj t1") auto
  let ?a1 = "AList.update var value assignment"
  let ?inner = "if c \<and> \<not> empty_found d2 then backtrack d2 adj ?a1 t2 else Inr (False, d2, ?a1, t2)"
  from eq d0 rv ac obtain r d3 a3 t3 where inner: "?inner = Inr (r, d3, a3, t3)"
    by (cases ?inner) auto
  have k2: "map fst d2 = map fst domains"
    using remove_values_keys [OF rv] ac3_keys [OF ac] by simp
  have k3: "map fst d3 = map fst domains \<and> fst ` set ?a1 \<subseteq> fst ` set a3"
  proof (cases "c \<and> \<not> empty_found d2")
    case True
    with inner have "backtrack d2 adj ?a1 t2 = Inr (r, d3, a3, t3)" by simp
    from "3.IH"(1) [OF d0 rv refl ac refl refl True this] k2 show ?thesis by simp
  next
    case False
    with inner k2 show ?thesis by auto
  qed
  show ?case
  proof (cases r)
    case True
    with eq d0 rv ac inner have "(b, d', a', t') = (True, d3, a3, t3)" by simp
    with k3 show ?thesis by (auto simp: keys_update)
  next
    case False
    with eq d0 rv ac inner obtain d4 t4 where rs: "restore_to (length trail) d3 t3 = Inr (d4, t4)"
      by (cases "restore_to (length trail) d3 t3") auto
    from eq d0 rv ac inner False rs have nn: "map_of a3 var \<noteq> None"
      and tv: "try_values var rest d4 adj (AList.delete var a3) t4 = Inr (b, d', a', t')"
      by (auto split: if_splits)
    from "3.IH"(2) [OF d0 rv refl ac refl refl inner refl refl refl False rs refl nn tv]
    have "map fst d' = map fst d4" and "fst ` set (AList.delete var a3) - {var} \<subseteq> fst ` set a'"
      by simp_all
    moreover have "map fst d4 = map fst domains" using restore_to_keys [OF rs] k3 by simp
    moreover have "fst ` set assignment - {var} \<subseteq> fst ` set (AList.delete var a3) - {var}"
      using k3 by (auto simp: keys_update keys_delete)
    ultimately show ?thesis by auto
  qed
qed

termination backtrack
proof (relation "inv_image (less_than <*lex*> less_than)
    (\<lambda>x. case x of
        Inl (d, adj, a, t) \<Rightarrow> (2 * card (unassigned d a), 0)
      | Inr (var, vs, d, adj, a, t) \<Rightarrow> (2 * card (unassigned d a - {var}) + 1, length vs))",
    goal_cases)
  case 1
  show ?case by (intro wf_inv_image wf_lex_prod wf_less_than)
next
  case (2 domains adj assignment trail var vals)
  from select_unassigned_variable_Some [OF 2(2)]
  have "var \<in> unassigned domains assignment"
    by (simp add: unassigned_def map_of_eq_None_iff)
  then have "card (unassigned domains assignment - {var}) < card (unassigned domains assignment)"
    by (intro card_Diff1_less unassigned_finite)
  then show ?case by simp
next
  case (3 var "value" rest domains adj assignment trail d0 b d1 t1 ba c ya d2 t2)
  then have rv: "remove_values var (filter (\<lambda>v. v \<noteq> value) (set_iter d0)) domains trail = Inr (d1, t1)"
    and ac: "ac3 (map (\<lambda>nb. (nb, var)) (adj_get adj var)) d1 adj t1 = Inr (c, d2, t2)"
    by simp_all
  have "map fst d2 = map fst domains"
    using remove_values_keys [OF rv] ac3_keys [OF ac] by simp
  then have "fst ` set d2 = fst ` set domains"
    by (metis set_map)
  then have "unassigned d2 (AList.update var value assignment) = unassigned domains assignment - {var}"
    by (auto simp: unassigned_def keys_update)
  then show ?case by simp
next
  case (4 var "value" rest domains adj assignment trail d0 b d1 t1 ba c ya d2 t2 bb r yc d3 yd a3 t3 bc d4 t4)
  then have rv: "remove_values var (filter (\<lambda>v. v \<noteq> value) (set_iter d0)) domains trail = Inr (d1, t1)"
    and ac: "ac3 (map (\<lambda>nb. (nb, var)) (adj_get adj var)) d1 adj t1 = Inr (c, d2, t2)"
    and inner: "(if c \<and> \<not> empty_found d2 then backtrack d2 adj (AList.update var value assignment) t2
                 else Inr (False, d2, AList.update var value assignment, t2)) = Inr (r, d3, a3, t3)"
    and rs: "restore_to (length trail) d3 t3 = Inr (d4, t4)"
    and dom: "c \<and> \<not> empty_found d2 \<Longrightarrow>
                backtrack_try_values_dom (Inl (d2, adj, AList.update var value assignment, t2))"
    by simp_all
  have k2: "map fst d2 = map fst domains"
    using remove_values_keys [OF rv] ac3_keys [OF ac] by simp
  have k3: "map fst d3 = map fst domains \<and> fst ` set (AList.update var value assignment) \<subseteq> fst ` set a3"
  proof (cases "c \<and> \<not> empty_found d2")
    case True
    with inner have "backtrack d2 adj (AList.update var value assignment) t2 = Inr (r, d3, a3, t3)"
      by simp
    from backtrack_try_values_keys_partial(1) [OF dom [OF True] this] k2 show ?thesis by simp
  next
    case False
    with inner k2 show ?thesis by auto
  qed
  have "map fst d4 = map fst domains" using restore_to_keys [OF rs] k3 by simp
  then have "fst ` set d4 = fst ` set domains" by (metis set_map)
  with k3 have "unassigned d4 (AList.delete var a3) - {var} \<subseteq> unassigned domains assignment - {var}"
    by (auto simp: unassigned_def keys_update keys_delete)
  then have "card (unassigned d4 (AList.delete var a3) - {var}) \<le> card (unassigned domains assignment - {var})"
    by (intro card_mono) (simp_all add: unassigned_finite)
  then show ?case by auto
qed

section \<open>The solver\<close>

text \<open>
  The final loop of \<open>solve_graph_coloring\<close> (lines 188-193): a variable that the search
  left without a value takes the least value of its domain.
\<close>

fun complete :: "int list \<Rightarrow> domains \<Rightarrow> assignment \<Rightarrow> error + assignment option" where
  "complete [] domains assignment = Inr (Some assignment)"
| "complete (v # vs) domains assignment =
     (if map_of assignment v = None then
        (case map_of domains v of
           None \<Rightarrow> Inl (KeyError v)
         | Some d \<Rightarrow>
             if fcard d \<ge> 1 then complete vs domains (AList.update v (fMin d) assignment)
             else Inr None)
      else complete vs domains assignment)"

text \<open>
  \<open>solve_graph_coloring\<close> (lines 164-194).  The result \<open>Inr None\<close> is Python's \<open>None\<close>, the
  failure signal; \<open>Inr (Some a)\<close> is the returned dictionary; \<open>Inl e\<close> is an exception that
  leaves the function.
\<close>

definition solve_graph_coloring :: "int \<Rightarrow> int list \<Rightarrow> adjacency \<Rightarrow> error + assignment option" where
  "solve_graph_coloring k variables adj =
     (let domains = fold (\<lambda>v ds. AList.update v (fset_of_list [1..k]) ds) variables [];
          queue = concat (map (\<lambda>Xi. map (\<lambda>Xj. (Xi, Xj)) (adj_get adj Xi)) variables)
      in case ac3 queue domains adj [] of
           Inl e \<Rightarrow> Inl e
         | Inr (ok, domains1, trail1) \<Rightarrow>
             if \<not> ok then Inr None
             else if empty_found domains1 then Inr None
             else (case backtrack domains1 adj [] trail1 of
                     Inl e \<Rightarrow> Inl e
                   | Inr (success, domains2, assignment2, trail2) \<Rightarrow>
                       if \<not> success then Inr None
                       else complete variables domains2 assignment2))"

section \<open>Revision\<close>

lemma set_set_iter [simp]: "set (set_iter D) = fset D"
  by (simp add: set_iter_def)

lemma distinct_set_iter [simp]: "distinct (set_iter D)"
  by (simp add: set_iter_def sorted_list_of_fset.rep_eq)

lemma fcard_1_hd:
  assumes "fcard D = 1"
  shows "D = {|hd (set_iter D)|}"
proof -
  from assms have "card (fset D) = 1" by (simp add: fcard.rep_eq)
  then obtain x where x: "fset D = {x}" by (metis card_1_singletonE)
  then have "D = {|x|}" by (metis bot_fset.rep_eq finsert.rep_eq fset_inject)
  moreover have "set_iter {|x|} = [x]" by (simp add: set_iter_def sorted_list_of_fset.rep_eq)
  ultimately show ?thesis by simp
qed

lemma sole_value_iff:
  "(fcard D = 1 \<and> hd (set_iter D) = x) \<longleftrightarrow> D = {|x|}"
proof
  assume "fcard D = 1 \<and> hd (set_iter D) = x"
  with fcard_1_hd [of D] show "D = {|x|}" by auto
next
  assume "D = {|x|}"
  then show "fcard D = 1 \<and> hd (set_iter D) = x"
    by (simp add: set_iter_def sorted_list_of_fset.rep_eq fcard_finsert_if)
qed

lemma update_update_same: "AList.update k v (AList.update k w al) = AList.update k v al"
  by (induction al) auto

lemma map_of_update_same: "map_of al k = Some w \<Longrightarrow> map_of (AList.update k v al) k = Some v"
  by (simp add: update_conv')

lemma remove_values_ok:
  assumes "map_of domains X = Some D" "distinct vals" "set vals \<subseteq> fset D"
  shows "remove_values X vals domains trail =
           Inr (AList.update X (D |-| fset_of_list vals) domains, trail @ map (Pair X) vals)"
  using assms
proof (induction vals arbitrary: domains trail D)
  case Nil
  then show ?case by (simp add: update_triv)
next
  case (Cons val vals)
  let ?d1 = "AList.update X (D |-| {|val|}) domains"
  have m1: "map_of ?d1 X = Some (D |-| {|val|})"
    using Cons.prems(1) by (rule map_of_update_same)
  have "remove_values X vals ?d1 (trail @ [(X, val)]) =
          Inr (AList.update X ((D |-| {|val|}) |-| fset_of_list vals) ?d1,
               (trail @ [(X, val)]) @ map (Pair X) vals)"
    using Cons.prems by (intro Cons.IH [OF m1]) auto
  moreover have "(D |-| {|val|}) |-| fset_of_list vals = D |-| fset_of_list (val # vals)"
    by auto
  ultimately show ?case
    using Cons.prems by (simp add: update_update_same)
qed

lemma revise_unfold:
  assumes "map_of domains X = Some domX" and "map_of domains Y = Some domY"
  shows "revise X Y domains adj trail =
           Inr ((\<exists>x. x |\<in>| domX \<and> domY = {|x|}),
                AList.update X (ffilter (\<lambda>x. domY \<noteq> {|x|}) domX) domains,
                trail @ map (Pair X) (filter (\<lambda>x. domY = {|x|}) (set_iter domX)))"
proof -
  define removed where "removed = filter (\<lambda>x. domY = {|x|}) (set_iter domX)"
  have to_remove: "filter (\<lambda>x. fcard domY = 1 \<and> hd (set_iter domY) = x) (set_iter domX) = removed"
    by (simp only: removed_def sole_value_iff)
  have set_removed: "set removed = {x. x |\<in>| domX \<and> domY = {|x|}}"
    by (auto simp: removed_def)
  have flag: "removed \<noteq> [] \<longleftrightarrow> (\<exists>x. x |\<in>| domX \<and> domY = {|x|})"
    using set_removed by (metis (mono_tags, lifting) empty_Collect_eq mem_Collect_eq set_empty)
  have newdom: "domX |-| fset_of_list removed = ffilter (\<lambda>x. domY \<noteq> {|x|}) domX"
  proof (rule fset_eqI)
    fix x
    have "x |\<in>| fset_of_list removed \<longleftrightarrow> x |\<in>| domX \<and> domY = {|x|}"
      using set_removed by (simp add: fset_of_list_elem)
    then show "x |\<in>| domX |-| fset_of_list removed \<longleftrightarrow> x |\<in>| ffilter (\<lambda>x. domY \<noteq> {|x|}) domX"
      by simp blast
  qed
  have rv: "remove_values X removed domains trail =
              Inr (AList.update X (domX |-| fset_of_list removed) domains, trail @ map (Pair X) removed)"
  proof (rule remove_values_ok [OF assms(1)])
    show "distinct removed" by (simp add: removed_def)
    show "set removed \<subseteq> fset domX" by (simp add: removed_def)
  qed
  show ?thesis
  proof (cases "removed = []")
    case True
    with flag have "\<not> (\<exists>x. x |\<in>| domX \<and> domY = {|x|})" by simp
    moreover from True newdom have "ffilter (\<lambda>x. domY \<noteq> {|x|}) domX = domX" by simp
    ultimately show ?thesis
      using assms True to_remove
      by (simp add: revise_def update_triv flip: removed_def)
  next
    case False
    with flag have "\<exists>x. x |\<in>| domX \<and> domY = {|x|}" by simp
    then show ?thesis
      using assms False to_remove rv newdom
      by (simp add: revise_def flip: removed_def)
  qed
qed

text \<open>
  Claim C4.  For variables \<open>X\<close> and \<open>Y\<close> of the domain store, \<open>revise X Y\<close> removes from
  the domain of \<open>X\<close> exactly the values \<open>x\<close> for which the domain of \<open>Y\<close> is the singleton
  \<open>{x}\<close>, appends one entry \<open>(X, x)\<close> to the trail for each removed value, leaves every other
  domain as it was, and returns true if and only if some value was removed.
\<close>

theorem revise_correct:
  assumes "map_of domains X = Some domX" and "map_of domains Y = Some domY"
  shows "revise X Y domains adj trail =
           Inr ((\<exists>x. x |\<in>| domX \<and> domY = {|x|}),
                AList.update X (ffilter (\<lambda>x. domY \<noteq> {|x|}) domX) domains,
                trail @ map (Pair X) (filter (\<lambda>x. domY = {|x|}) (set_iter domX)))"
  using assms by (rule revise_unfold)

theorem revise_correct_witness:
  "map_of [(1, {|1, 2|}), (2, {|2|})] (1::int) = Some {|1, 2::int|} \<and>
   map_of [(1, {|1, 2|}), (2, {|2|})] (2::int) = Some {|2::int|} \<and>
   revise 1 2 [(1, {|1, 2|}), (2, {|2|})] (\<lambda>v. None) [] = Inr (True, [(1, {|1|}), (2, {|2|})], [(1, 2)])"
proof -
  have a: "map_of [(1, {|1, 2|}), (2, {|2|})] (1::int) = Some {|1, 2::int|}" by simp
  have b: "map_of [(1, {|1, 2|}), (2, {|2|})] (2::int) = Some {|2::int|}" by simp
  have c: "(\<exists>x. x |\<in>| {|1, 2::int|} \<and> {|2::int|} = {|x|}) = True" by auto
  have d: "ffilter (\<lambda>x. {|2::int|} \<noteq> {|x|}) {|1, 2::int|} = {|1|}" by auto
  have e: "filter (\<lambda>x. {|2::int|} = {|x|}) (set_iter {|1, 2::int|}) = [2]"
    by (simp add: set_iter_def sorted_list_of_fset.rep_eq)
  from revise_correct [OF a b, of "\<lambda>v. None" "[]"] a b show ?thesis
    unfolding c d e by simp
qed

section \<open>The trail\<close>

text \<open>
  \<open>trailed d t d' t'\<close>: the state \<open>(d', t')\<close> comes from \<open>(d, t)\<close> by removing values that were
  present, each removal recorded at the end of the trail.
\<close>

inductive trailed :: "domains \<Rightarrow> trail \<Rightarrow> domains \<Rightarrow> trail \<Rightarrow> bool" for domains trail where
  trailed_refl: "trailed domains trail domains trail"
| trailed_step: "trailed domains trail d t \<Longrightarrow> map_of d X = Some D \<Longrightarrow> val |\<in>| D \<Longrightarrow>
     trailed domains trail (AList.update X (D |-| {|val|}) d) (t @ [(X, val)])"

lemma trailed_trans:
  "trailed d1 t1 d2 t2 \<Longrightarrow> trailed d0 t0 d1 t1 \<Longrightarrow> trailed d0 t0 d2 t2"
  by (induction rule: trailed.induct) (auto intro: trailed.intros)

lemma remove_values_trailed:
  "remove_values X vals domains trail = Inr (d', t') \<Longrightarrow> trailed domains trail d' t'"
proof (induction vals arbitrary: domains trail)
  case Nil
  then show ?case by (auto intro: trailed_refl)
next
  case (Cons val vals)
  from Cons.prems obtain D where D: "map_of domains X = Some D" "val |\<in>| D"
    and rest: "remove_values X vals (AList.update X (D |-| {|val|}) domains) (trail @ [(X, val)])
                 = Inr (d', t')"
    by (auto split: option.splits if_splits)
  have "trailed domains trail (AList.update X (D |-| {|val|}) domains) (trail @ [(X, val)])"
    using D by (intro trailed_step trailed_refl)
  with Cons.IH [OF rest] show ?case by (rule trailed_trans)
qed

lemma revise_trailed:
  "revise X Y domains adj trail = Inr (b, d', t') \<Longrightarrow> trailed domains trail d' t'"
  by (auto simp: revise_def Let_def split: option.splits if_splits sum.splits
      intro: trailed_refl remove_values_trailed)

lemma ac3_trailed:
  "ac3 queue domains adj trail = Inr (b, d', t') \<Longrightarrow> trailed domains trail d' t'"
proof (induction queue domains adj trail rule: ac3.induct)
  case (1 domains adj trail)
  then show ?case by (auto intro: trailed_refl)
next
  case (2 Xi Xj queue domains adj trail)
  from "2.prems" obtain r d1 t1 where rev: "revise Xi Xj domains adj trail = Inr (r, d1, t1)"
    by (auto split: sum.splits)
  note k1 = revise_trailed [OF rev]
  show ?case
  proof (cases r)
    case True
    with "2.prems" rev obtain D where D: "map_of d1 Xi = Some D"
      by (auto split: option.splits)
    show ?thesis
    proof (cases "fcard D = 0")
      case True
      with "2.prems" rev \<open>r\<close> D k1 show ?thesis by auto
    next
      case False
      with "2.prems" rev \<open>r\<close> D
      have "ac3 (queue @ map (\<lambda>Xk. (Xk, Xi)) (filter (\<lambda>Xk. Xk \<noteq> Xj) (adj_get adj Xi))) d1 adj t1
              = Inr (b, d', t')" by simp
      from "2.IH"(1) [OF rev refl refl \<open>r\<close> D False this] k1 show ?thesis by (rule trailed_trans)
    qed
  next
    case False
    with "2.prems" rev have "ac3 queue d1 adj t1 = Inr (b, d', t')" by simp
    from "2.IH"(2) [OF rev refl refl False this] k1 show ?thesis by (rule trailed_trans)
  qed
qed

lemma trailed_length: "trailed domains trail d' t' \<Longrightarrow> length trail \<le> length t'"
  by (induction rule: trailed.induct) auto

lemma trailed_restore:
  "trailed domains trail d' t' \<Longrightarrow> restore_to (length trail) d' t' = Inr (domains, trail)"
proof (induction rule: trailed.induct)
  case trailed_refl
  show ?case by simp
next
  case (trailed_step d t X D val)
  let ?d1 = "AList.update X (D |-| {|val|}) d"
  have len: "length trail < length (t @ [(X, val)])"
    using trailed_length [OF trailed_step.hyps(1)] by simp
  have m: "map_of ?d1 X = Some (D |-| {|val|})"
    using trailed_step.hyps(2) by (rule map_of_update_same)
  have undone: "AList.update X (finsert val (D |-| {|val|})) ?d1 = d"
  proof -
    have "finsert val (D |-| {|val|}) = D" using trailed_step.hyps(3) by auto
    then show ?thesis
      using trailed_step.hyps(2) by (simp add: update_update_same update_triv)
  qed
  have "restore_to (length trail) ?d1 (t @ [(X, val)]) = restore_to (length trail) d t"
    using len m undone
    by (subst restore_to.simps) (simp del: restore_to.simps)
  with trailed_step.IH show ?case by simp
qed

text \<open>
  The forward steps of the search between a mark and the rollback to it: a revision
  (line 88) or the forcing of a variable to one value (lines 139-142).
\<close>

inductive forward :: "adjacency \<Rightarrow> domains \<Rightarrow> trail \<Rightarrow> domains \<Rightarrow> trail \<Rightarrow> bool"
  for adj domains trail where
  forward_mark: "forward adj domains trail domains trail"
| forward_revise: "forward adj domains trail d t \<Longrightarrow> revise X Y d adj t = Inr (b, d', t') \<Longrightarrow>
     forward adj domains trail d' t'"
| forward_force: "forward adj domains trail d t \<Longrightarrow> map_of d var = Some D \<Longrightarrow>
     remove_values var (filter (\<lambda>v. v \<noteq> value) (set_iter D)) d t = Inr (d', t') \<Longrightarrow>
     forward adj domains trail d' t'"

lemma forward_trailed:
  "forward adj domains trail d' t' \<Longrightarrow> trailed domains trail d' t'"
proof (induction rule: forward.induct)
  case forward_mark
  show ?case by (rule trailed_refl)
next
  case (forward_revise d t X Y b d' t')
  from revise_trailed [OF forward_revise.hyps(2)] forward_revise.IH
  show ?case by (rule trailed_trans)
next
  case (forward_force d t var D "value" d' t')
  from remove_values_trailed [OF forward_force.hyps(3)] forward_force.IH
  show ?case by (rule trailed_trans)
qed

text \<open>
  Claim C3.  Record the length of the trail as a mark.  After any sequence of removals made by
  \<open>revise\<close> or by forcing a variable to a single value, the rollback loop run with that mark
  pops the trail back to the marked length and returns every domain to exactly its contents
  at the moment the mark was recorded.
\<close>

theorem trail_round_trip:
  assumes "forward adj domains trail d' t'"
  shows "restore_to (length trail) d' t' = Inr (domains, trail)"
  using assms by (intro trailed_restore forward_trailed)

theorem trail_round_trip_witness:
  "forward (\<lambda>v. None) [(1, {|1, 2|}), (2, {|1, 2|})] [] [(1, {|1|}), (2, {|2|})] [(1, 2), (2, 1)] \<and>
   restore_to (length ([] :: trail)) [(1, {|1|}), (2, {|2|})] [(1, 2), (2, 1)]
     = Inr ([(1, {|1, 2|}), (2, {|1, 2|})], [])"
proof -
  let ?d0 = "[(1, {|1, 2|}), (2, {|1, 2|})] :: domains"
  let ?d1 = "[(1, {|1|}), (2, {|1, 2|})] :: domains"
  let ?d2 = "[(1, {|1|}), (2, {|2|})] :: domains"
  have m: "map_of ?d0 1 = Some {|1, 2|}" by simp
  have f: "remove_values 1 (filter (\<lambda>v. v \<noteq> 1) (set_iter {|1, 2|})) ?d0 [] = Inr (?d1, [(1, 2)])"
    by code_simp
  have r: "revise 2 1 ?d1 (\<lambda>v. None) [(1, 2)] = Inr (True, ?d2, [(1, 2), (2, 1)])"
    by code_simp
  have fw: "forward (\<lambda>v. None) ?d0 [] ?d2 [(1, 2), (2, 1)]"
    by (rule forward_revise [OF forward_force [OF forward_mark m f] r])
  from trail_round_trip [OF fw] fw show ?thesis by simp
qed

section \<open>Propagation\<close>

lemma trailed_subset:
  "trailed domains trail d' t' \<Longrightarrow>
     map fst d' = map fst domains \<and>
     (\<forall>v D'. map_of d' v = Some D' \<longrightarrow> (\<exists>D. map_of domains v = Some D \<and> D' |\<subseteq>| D))"
proof (induction rule: trailed.induct)
  case trailed_refl
  show ?case by simp
next
  case (trailed_step d t X D val)
  have "map fst (AList.update X (D |-| {|val|}) d) = map fst d"
    using trailed_step.hyps(2) by (rule update_keys_same)
  moreover have "\<exists>D0. map_of domains v = Some D0 \<and> D' |\<subseteq>| D0"
    if "map_of (AList.update X (D |-| {|val|}) d) v = Some D'" for v D'
  proof (cases "v = X")
    case True
    with that trailed_step.hyps(2) have "D' = D |-| {|val|}"
      by (simp add: update_conv')
    moreover from trailed_step.IH trailed_step.hyps(2) True
    obtain D0 where "map_of domains v = Some D0" "D |\<subseteq>| D0" by blast
    ultimately show ?thesis by auto
  next
    case False
    with that have "map_of d v = Some D'" by (simp add: update_conv')
    with trailed_step.IH show ?thesis by blast
  qed
  ultimately show ?case using trailed_step.IH by simp
qed

text \<open>
  Claim C5.  \<open>ac3\<close> terminates on every queue and every domain store (every argument lies in
  the domain of its recursion), and when it returns, with either answer, the store has the same
  variables as before and every domain is a subset of what it was before the call: \<open>ac3\<close> adds
  no value to any domain.
\<close>

theorem ac3_terminates_monotone:
  "ac3_dom (queue, domains, adj, trail) \<and>
   (\<forall>b d' t'. ac3 queue domains adj trail = Inr (b, d', t') \<longrightarrow>
      map fst d' = map fst domains \<and>
      (\<forall>v D'. map_of d' v = Some D' \<longrightarrow> (\<exists>D. map_of domains v = Some D \<and> D' |\<subseteq>| D)))"
proof -
  have "ac3_dom (queue, domains, adj, trail)"
    using ac3_terminates by blast
  moreover have "map fst d' = map fst domains \<and>
      (\<forall>v D'. map_of d' v = Some D' \<longrightarrow> (\<exists>D. map_of domains v = Some D \<and> D' |\<subseteq>| D))"
    if "ac3 queue domains adj trail = Inr (b, d', t')" for b d' t'
    using that by (intro trailed_subset ac3_trailed)
  ultimately show ?thesis by blast
qed

theorem ac3_terminates_monotone_witness:
  "ac3 [(2, 1), (3, 2)] [(1, {|1|}), (2, {|1, 2|}), (3, {|1, 2, 3|})]
       (map_of [(1, [2]), (2, [1, 3]), (3, [2])]) []
     = Inr (True, [(1, {|1|}), (2, {|2|}), (3, {|1, 3|})], [(2, 1), (3, 2)]) \<and>
   ac3_dom ([(2, 1), (3, 2)], [(1, {|1|}), (2, {|1, 2|}), (3, {|1, 2, 3|})],
            map_of [(1, [2]), (2, [1, 3]), (3, [2])], []) \<and>
   map fst ([(1, {|1|}), (2, {|2|}), (3, {|1, 3|})] :: domains)
     = map fst ([(1, {|1|}), (2, {|1, 2|}), (3, {|1, 2, 3|})] :: domains) \<and>
   (\<exists>D. map_of ([(1, {|1|}), (2, {|1, 2|}), (3, {|1, 2, 3|})] :: domains) 3 = Some D \<and>
        {|1, 3|} |\<subseteq>| D)"
proof -
  let ?d = "[(1, {|1|}), (2, {|1, 2|}), (3, {|1, 2, 3|})] :: domains"
  let ?d' = "[(1, {|1|}), (2, {|2|}), (3, {|1, 3|})] :: domains"
  let ?adj = "map_of [(1, [2]), (2, [1, 3]), (3, [2::int])] :: adjacency"
  have run: "ac3 [(2, 1), (3, 2)] ?d ?adj [] = Inr (True, ?d', [(2, 1), (3, 2)])"
    by code_simp
  have look: "map_of ?d' 3 = Some {|1, 3|}" by simp
  note mono = ac3_terminates_monotone [of "[(2, 1), (3, 2)]" ?d ?adj "[]"]
  from mono have "ac3_dom ([(2, 1), (3, 2)], ?d, ?adj, [])" by (rule conjunct1)
  moreover from mono run have keys: "map fst ?d' = map fst ?d"
    and sub: "\<forall>v D'. map_of ?d' v = Some D' \<longrightarrow> (\<exists>D. map_of ?d v = Some D \<and> D' |\<subseteq>| D)"
    by blast+
  moreover from sub look have "\<exists>D. map_of ?d 3 = Some D \<and> {|1, 3|} |\<subseteq>| D" by blast
  ultimately show ?thesis using run by blast
qed

text \<open>
  Well-formedness of a queue and of the adjacency with respect to the domain store, and the
  values that a piece of trail records for a variable.
\<close>

definition arcs_in :: "(int \<times> int) list \<Rightarrow> domains \<Rightarrow> bool" where
  "arcs_in queue domains \<longleftrightarrow>
     (\<forall>(Xi, Xj) \<in> set queue. Xi \<in> fst ` set domains \<and> Xj \<in> fst ` set domains)"

definition adj_closed :: "adjacency \<Rightarrow> domains \<Rightarrow> bool" where
  "adj_closed adj domains \<longleftrightarrow>
     (\<forall>u \<in> fst ` set domains. set (adj_get adj u) \<subseteq> fst ` set domains)"

definition removed_from :: "trail \<Rightarrow> int \<Rightarrow> int fset" where
  "removed_from ts v = fset_of_list (map snd (filter (\<lambda>(x, val). x = v) ts))"

lemma keys_cong: "map fst d' = map fst d \<Longrightarrow> fst ` set d' = fst ` set d"
  by (metis set_map)

lemma arcs_in_cong: "map fst d' = map fst d \<Longrightarrow> arcs_in q d' = arcs_in q d"
  using keys_cong [of d' d] by (simp add: arcs_in_def)

lemma adj_closed_cong: "map fst d' = map fst d \<Longrightarrow> adj_closed adj d' = adj_closed adj d"
  using keys_cong [of d' d] by (simp add: adj_closed_def)

lemma key_lookup: "X \<in> fst ` set d \<Longrightarrow> \<exists>D. map_of d X = Some D"
  by (metis map_of_eq_None_iff not_Some_eq)

lemma lookup_key: "map_of d X = Some D \<Longrightarrow> X \<in> fst ` set d"
  by (metis map_of_eq_None_iff option.distinct(1))

lemma revise_no_error:
  assumes "X \<in> fst ` set d" "Y \<in> fst ` set d"
  shows "\<exists>r d1 t1. revise X Y d adj t = Inr (r, d1, t1)"
proof -
  from key_lookup [OF assms(1)] obtain DX where DX: "map_of d X = Some DX" ..
  from key_lookup [OF assms(2)] obtain DY where DY: "map_of d Y = Some DY" ..
  from revise_unfold [OF DX DY] show ?thesis by blast
qed

lemma ac3_no_error:
  "arcs_in queue domains \<Longrightarrow> adj_closed adj domains \<Longrightarrow>
     \<exists>b d' t'. ac3 queue domains adj trail = Inr (b, d', t')"
proof (induction queue domains adj trail rule: ac3.induct)
  case (1 domains adj trail)
  show ?case by auto
next
  case (2 Xi Xj queue domains adj trail)
  from "2.prems"(1) have Xi: "Xi \<in> fst ` set domains" and Xj: "Xj \<in> fst ` set domains"
    and q: "arcs_in queue domains"
    by (auto simp: arcs_in_def)
  from revise_no_error [OF Xi Xj] obtain r d1 t1
    where rev: "revise Xi Xj domains adj trail = Inr (r, d1, t1)" by blast
  note k1 = revise_keys [OF rev]
  have q1: "arcs_in queue d1" using q arcs_in_cong [OF k1] by simp
  have c1: "adj_closed adj d1" using "2.prems"(2) adj_closed_cong [OF k1] by simp
  show ?case
  proof (cases r)
    case True
    from Xi keys_cong [OF k1] have "Xi \<in> fst ` set d1" by simp
    from key_lookup [OF this] obtain D where D: "map_of d1 Xi = Some D" ..
    show ?thesis
    proof (cases "fcard D = 0")
      case True
      with rev \<open>r\<close> D show ?thesis by auto
    next
      case False
      let ?q' = "queue @ map (\<lambda>Xk. (Xk, Xi)) (filter (\<lambda>Xk. Xk \<noteq> Xj) (adj_get adj Xi))"
      have "arcs_in ?q' domains"
        using q Xi "2.prems"(2) by (auto simp: arcs_in_def adj_closed_def)
      then have "arcs_in ?q' d1" using arcs_in_cong [OF k1] by simp
      from "2.IH"(1) [OF rev refl refl \<open>r\<close> D False this c1] rev \<open>r\<close> D False
      show ?thesis by simp
    qed
  next
    case False
    from "2.IH"(2) [OF rev refl refl False q1 c1] rev False
    show ?thesis by simp
  qed
qed

lemma ac3_False_empty:
  "ac3 queue domains adj trail = Inr (False, d', t') \<Longrightarrow> \<exists>X. map_of d' X = Some {||}"
proof (induction queue domains adj trail rule: ac3.induct)
  case (1 domains adj trail)
  then show ?case by simp
next
  case (2 Xi Xj queue domains adj trail)
  from "2.prems" obtain r d1 t1 where rev: "revise Xi Xj domains adj trail = Inr (r, d1, t1)"
    by (auto split: sum.splits)
  show ?case
  proof (cases r)
    case True
    with "2.prems" rev obtain D where D: "map_of d1 Xi = Some D"
      by (auto split: option.splits)
    show ?thesis
    proof (cases "fcard D = 0")
      case True
      with "2.prems" rev \<open>r\<close> D have "d' = d1" by simp
      moreover from True have "D = {||}" by simp
      ultimately show ?thesis using D by blast
    next
      case False
      with "2.prems" rev \<open>r\<close> D
      have "ac3 (queue @ map (\<lambda>Xk. (Xk, Xi)) (filter (\<lambda>Xk. Xk \<noteq> Xj) (adj_get adj Xi))) d1 adj t1
              = Inr (False, d', t')" by simp
      from "2.IH"(1) [OF rev refl refl \<open>r\<close> D False this] show ?thesis .
    qed
  next
    case False
    with "2.prems" rev have "ac3 queue d1 adj t1 = Inr (False, d', t')" by simp
    from "2.IH"(2) [OF rev refl refl False this] show ?thesis .
  qed
qed

lemma removed_from_snoc:
  "removed_from (ts @ [(X, val)]) v = (if v = X then finsert val (removed_from ts v) else removed_from ts v)"
  by (auto simp: removed_from_def)

lemma trailed_removed:
  "trailed domains trail d' t' \<Longrightarrow>
     \<exists>ts. t' = trail @ ts \<and>
          (\<forall>v. map_of d' v = map_option (\<lambda>D. D |-| removed_from ts v) (map_of domains v)) \<and>
          (\<forall>(X, val) \<in> set ts. \<exists>D. map_of domains X = Some D \<and> val |\<in>| D)"
proof (induction rule: trailed.induct)
  case trailed_refl
  show ?case
    by (rule exI [of _ "[]"]) (simp add: removed_from_def option.map_ident)
next
  case (trailed_step d t X D val)
  then obtain ts where ts: "t = trail @ ts"
    and doms: "\<And>v. map_of d v = map_option (\<lambda>D. D |-| removed_from ts v) (map_of domains v)"
    and pres: "\<forall>(X, val) \<in> set ts. \<exists>D. map_of domains X = Some D \<and> val |\<in>| D"
    by blast
  from doms [of X] trailed_step.hyps(2) obtain D0 where D0: "map_of domains X = Some D0"
    and D: "D = D0 |-| removed_from ts X" by (cases "map_of domains X") auto
  have "t @ [(X, val)] = trail @ (ts @ [(X, val)])" using ts by simp
  moreover have "map_of (AList.update X (D |-| {|val|}) d) v
      = map_option (\<lambda>D. D |-| removed_from (ts @ [(X, val)]) v) (map_of domains v)" for v
  proof (cases "v = X")
    case True
    have "D |-| {|val|} = D0 |-| finsert val (removed_from ts X)"
      using D by auto
    with True D0 show ?thesis
      by (simp add: update_conv' removed_from_snoc)
  next
    case False
    with doms [of v] show ?thesis
      by (simp add: update_conv' removed_from_snoc)
  qed
  moreover have "\<forall>(X, val) \<in> set (ts @ [(X, val)]). \<exists>D. map_of domains X = Some D \<and> val |\<in>| D"
    using pres D0 D trailed_step.hyps(3) by auto
  ultimately show ?case by blast
qed

text \<open>
  Claim C6.  When the revision of the first arc \<open>(Xi, Xj)\<close> of the queue removes a value and
  leaves the domain of \<open>Xi\<close> empty, \<open>ac3\<close> returns false at once, with the domains and the trail
  exactly as that revision left them.  In general, on a store that holds every variable of the
  queue and of the adjacency, \<open>ac3\<close> raises no exception: it returns a boolean, the trail it
  returns is the old trail followed by one entry per removal, every domain is its old contents
  minus the values recorded for it (nothing is restored), and the answer false comes with an
  empty domain.
\<close>

theorem ac3_failure:
  "(revise Xi Xj domains adj trail = Inr (True, d1, t1) \<and> map_of d1 Xi = Some {||} \<longrightarrow>
      ac3 ((Xi, Xj) # queue) domains adj trail = Inr (False, d1, t1)) \<and>
   (arcs_in queue domains \<and> adj_closed adj domains \<longrightarrow>
      (\<exists>b d' ts. ac3 queue domains adj trail = Inr (b, d', trail @ ts) \<and>
         (\<forall>v. map_of d' v = map_option (\<lambda>D. D |-| removed_from ts v) (map_of domains v)) \<and>
         (\<forall>(X, val) \<in> set ts. \<exists>D. map_of domains X = Some D \<and> val |\<in>| D) \<and>
         (\<not> b \<longrightarrow> (\<exists>X. map_of d' X = Some {||}))))"
proof (intro conjI impI)
  assume "revise Xi Xj domains adj trail = Inr (True, d1, t1) \<and> map_of d1 Xi = Some {||}"
  then show "ac3 ((Xi, Xj) # queue) domains adj trail = Inr (False, d1, t1)"
    by simp
next
  assume wf: "arcs_in queue domains \<and> adj_closed adj domains"
  then obtain b d' t' where run: "ac3 queue domains adj trail = Inr (b, d', t')"
    using ac3_no_error by blast
  from trailed_removed [OF ac3_trailed [OF run]] obtain ts where ts: "t' = trail @ ts"
    and doms: "\<forall>v. map_of d' v = map_option (\<lambda>D. D |-| removed_from ts v) (map_of domains v)"
    and pres: "\<forall>(X, val) \<in> set ts. \<exists>D. map_of domains X = Some D \<and> val |\<in>| D"
    by blast
  have "\<exists>X. map_of d' X = Some {||}" if "\<not> b"
    using that run ac3_False_empty by simp
  with run ts doms pres
  show "\<exists>b d' ts. ac3 queue domains adj trail = Inr (b, d', trail @ ts) \<and>
         (\<forall>v. map_of d' v = map_option (\<lambda>D. D |-| removed_from ts v) (map_of domains v)) \<and>
         (\<forall>(X, val) \<in> set ts. \<exists>D. map_of domains X = Some D \<and> val |\<in>| D) \<and>
         (\<not> b \<longrightarrow> (\<exists>X. map_of d' X = Some {||}))"
    by blast
qed

theorem ac3_failure_witness:
  "revise 1 2 [(1, {|1|}), (2, {|1|})] (map_of [(1, [2]), (2, [1])]) []
     = Inr (True, [(1, {||}), (2, {|1|})], [(1, 1)]) \<and>
   map_of ([(1, {||}), (2, {|1|})] :: domains) 1 = Some {||} \<and>
   ac3 [(1, 2), (2, 1)] [(1, {|1|}), (2, {|1|})] (map_of [(1, [2]), (2, [1])]) []
     = Inr (False, [(1, {||}), (2, {|1|})], [(1, 1)]) \<and>
   arcs_in [(1, 2), (2, 1)] [(1, {|1|}), (2, {|1|})] \<and>
   adj_closed (map_of [(1, [2]), (2, [1])]) [(1, {|1|}), (2, {|1|})] \<and>
   (\<exists>b d' ts. ac3 [(1, 2), (2, 1)] [(1, {|1|}), (2, {|1|})] (map_of [(1, [2]), (2, [1])]) []
                  = Inr (b, d', [] @ ts) \<and>
      (\<forall>v. map_of d' v = map_option (\<lambda>D. D |-| removed_from ts v)
                            (map_of ([(1, {|1|}), (2, {|1|})] :: domains) v)) \<and>
      (\<forall>(X, val) \<in> set ts. \<exists>D. map_of ([(1, {|1|}), (2, {|1|})] :: domains) X = Some D \<and> val |\<in>| D) \<and>
      (\<not> b \<longrightarrow> (\<exists>X. map_of d' X = Some {||})))"
proof -
  let ?d = "[(1, {|1|}), (2, {|1|})] :: domains"
  let ?adj = "map_of [(1, [2]), (2, [1::int])] :: adjacency"
  have rev: "revise 1 2 ?d ?adj [] = Inr (True, [(1, {||}), (2, {|1|})], [(1, 1)])"
    by code_simp
  have emp: "map_of ([(1, {||}), (2, {|1|})] :: domains) 1 = Some {||}"
    by simp
  have arcs: "arcs_in [(1, 2), (2, 1)] ?d"
    by (simp add: arcs_in_def)
  have closed: "adj_closed ?adj ?d"
    by (simp add: adj_closed_def adj_get_def)
  note step = ac3_failure [of 1 2 ?d ?adj "[]" "[(1, {||}), (2, {|1|})]" "[(1, 1)]" "[(2, 1)]"]
  note gen = ac3_failure [of 1 2 ?d ?adj "[]" "[(1, {||}), (2, {|1|})]" "[(1, 1)]" "[(1, 2), (2, 1)]"]
  from step rev emp have "ac3 [(1, 2), (2, 1)] ?d ?adj [] = Inr (False, [(1, {||}), (2, {|1|})], [(1, 1)])"
    by blast
  moreover from gen arcs closed
  have "\<exists>b d' ts. ac3 [(1, 2), (2, 1)] ?d ?adj [] = Inr (b, d', [] @ ts) \<and>
      (\<forall>v. map_of d' v = map_option (\<lambda>D. D |-| removed_from ts v) (map_of ?d v)) \<and>
      (\<forall>(X, val) \<in> set ts. \<exists>D. map_of ?d X = Some D \<and> val |\<in>| D) \<and>
      (\<not> b \<longrightarrow> (\<exists>X. map_of d' X = Some {||}))"
    by blast
  ultimately show ?thesis using rev emp arcs closed by blast
qed

section \<open>Variable selection\<close>

lemma hd_sort_Min:
  assumes "xs \<noteq> []"
  shows "hd (sort xs) = Min (set xs)"
proof -
  from assms have ne: "sort xs \<noteq> []" by (metis set_empty set_sort)
  have "hd (sort xs) \<in> set xs" using hd_in_set [OF ne] by simp
  moreover have "hd (sort xs) \<le> y" if "y \<in> set xs" for y
  proof -
    from that have "y \<in> set (sort xs)" by simp
    moreover have "sorted (sort xs)" by simp
    ultimately show ?thesis using ne
      by (cases "sort xs") auto
  qed
  ultimately show ?thesis
    by (intro Min_eqI [symmetric]) auto
qed

lemma select_unassigned_variable_None:
  "select_unassigned_variable domains assignment = None \<longleftrightarrow>
     (\<forall>v \<in> fst ` set domains. map_of assignment v \<noteq> None)"
proof -
  have "(filter (\<lambda>(var, dom). map_of assignment var = None) domains = []) \<longleftrightarrow>
          (\<forall>v \<in> fst ` set domains. map_of assignment v \<noteq> None)"
    unfolding filter_empty_conv by (simp add: split_beta)
  then show ?thesis
    by (simp add: select_unassigned_variable_def Let_def)
qed

lemma select_unassigned_variable_min:
  assumes "select_unassigned_variable domains assignment = Some var"
  shows "\<exists>D. (var, D) \<in> set domains \<and> map_of assignment var = None \<and>
           (\<forall>(v, D') \<in> set domains. map_of assignment v = None \<longrightarrow>
              fcard D < fcard D' \<or> (fcard D = fcard D' \<and> var \<le> v))"
proof -
  define c where "c = map (\<lambda>(var, dom). (fcard dom, var)) (filter (\<lambda>(var, dom). map_of assignment var = None) domains)"
  from assms have ne: "c \<noteq> []" and var: "var = snd (hd (sort c))"
    by (auto simp: select_unassigned_variable_def Let_def c_def split: if_splits)
  have hd: "hd (sort c) = Min (set c)" using ne by (rule hd_sort_Min)
  have "Min (set c) \<in> set c" using ne by (intro Min_in) auto
  with hd obtain D where D: "(var, D) \<in> set domains" "map_of assignment var = None"
    "hd (sort c) = (fcard D, var)"
    unfolding c_def var by auto
  have "fcard D < fcard D' \<or> (fcard D = fcard D' \<and> var \<le> v)"
    if "(v, D') \<in> set domains" "map_of assignment v = None" for v D'
  proof -
    from that have "(fcard D', v) \<in> set c" unfolding c_def by force
    then have "Min (set c) \<le> (fcard D', v)" by (intro Min_le) auto
    with hd D(3) have "(fcard D, var) \<le> (fcard D', v)" by simp
    then show ?thesis by (auto simp: less_eq_prod_def)
  qed
  with D show ?thesis by blast
qed

text \<open>
  Claim C7.  Let \<open>domains\<close> be a dictionary (no key twice).  If some variable of \<open>domains\<close> has
  no entry in \<open>assignment\<close>, \<open>select_unassigned_variable\<close> returns such a variable whose domain
  is smallest among the unassigned variables, and among those of smallest domain the one with
  the least identifier.  If every variable is assigned it returns \<open>None\<close>.
\<close>

theorem mrv_selection:
  assumes "distinct (map fst domains)"
  shows "if \<exists>v D. map_of domains v = Some D \<and> map_of assignment v = None
         then \<exists>var D. select_unassigned_variable domains assignment = Some var \<and>
                map_of domains var = Some D \<and> map_of assignment var = None \<and>
                (\<forall>v D'. map_of domains v = Some D' \<and> map_of assignment v = None \<longrightarrow>
                   fcard D < fcard D' \<or> (fcard D = fcard D' \<and> var \<le> v))
         else select_unassigned_variable domains assignment = None"
proof (cases "\<exists>v D. map_of domains v = Some D \<and> map_of assignment v = None")
  case True
  then obtain v0 D0 where v0: "map_of domains v0 = Some D0" "map_of assignment v0 = None" by blast
  then have "v0 \<in> fst ` set domains" by (metis lookup_key)
  with v0(2) have "select_unassigned_variable domains assignment \<noteq> None"
    unfolding select_unassigned_variable_None by blast
  then obtain var where sel: "select_unassigned_variable domains assignment = Some var" by blast
  from select_unassigned_variable_min [OF sel] obtain D where D: "(var, D) \<in> set domains"
    "map_of assignment var = None"
    "\<forall>(v, D') \<in> set domains. map_of assignment v = None \<longrightarrow>
        fcard D < fcard D' \<or> (fcard D = fcard D' \<and> var \<le> v)"
    by blast
  from D(1) assms have "map_of domains var = Some D" by simp
  moreover have "fcard D < fcard D' \<or> (fcard D = fcard D' \<and> var \<le> v)"
    if "map_of domains v = Some D'" "map_of assignment v = None" for v D'
  proof -
    from that(1) have "(v, D') \<in> set domains" by (rule map_of_SomeD)
    with D(3) that(2) show ?thesis by blast
  qed
  ultimately show ?thesis using True sel D(2) by auto
next
  case False
  have "\<forall>v \<in> fst ` set domains. map_of assignment v \<noteq> None"
  proof
    fix v assume "v \<in> fst ` set domains"
    from key_lookup [OF this] obtain D where "map_of domains v = Some D" ..
    with False show "map_of assignment v \<noteq> None" by metis
  qed
  then have "select_unassigned_variable domains assignment = None"
    unfolding select_unassigned_variable_None .
  with False show ?thesis by simp
qed

theorem mrv_selection_witness:
  "distinct (map fst ([(3, {|1, 2|}), (1, {|1, 2|}), (2, {|1, 2, 3|}), (0, {|1|})] :: domains)) \<and>
   select_unassigned_variable [(3, {|1, 2|}), (1, {|1, 2|}), (2, {|1, 2, 3|}), (0, {|1|})] [(0, 1)] = Some 1 \<and>
   (\<exists>D. map_of ([(3, {|1, 2|}), (1, {|1, 2|}), (2, {|1, 2, 3|}), (0, {|1|})] :: domains) 1 = Some D \<and>
      (\<forall>v D'. map_of ([(3, {|1, 2|}), (1, {|1, 2|}), (2, {|1, 2, 3|}), (0, {|1|})] :: domains) v = Some D' \<and>
               map_of ([(0, 1)] :: assignment) v = None \<longrightarrow>
         fcard D < fcard D' \<or> (fcard D = fcard D' \<and> 1 \<le> v)))"
proof -
  let ?d = "[(3, {|1, 2|}), (1, {|1, 2|}), (2, {|1, 2, 3|}), (0, {|1|})] :: domains"
  let ?a = "[(0, 1)] :: assignment"
  have h: "distinct (map fst ?d)" by simp
  have ex: "\<exists>v D. map_of ?d v = Some D \<and> map_of ?a v = None"
    by (intro exI [of _ 3] exI [of _ "{|1, 2|}"]) simp
  have sel: "select_unassigned_variable ?d ?a = Some 1" by code_simp
  from mrv_selection [OF h, of ?a] ex sel h show ?thesis
    by (simp only: if_True) force
qed

section \<open>Value ordering\<close>

text \<open>
  The elimination count of a value: the number of neighbours of \<open>var\<close> that are not yet
  assigned and whose domain contains the value.
\<close>

definition elimination_count :: "int \<Rightarrow> int \<Rightarrow> domains \<Rightarrow> adjacency \<Rightarrow> assignment \<Rightarrow> nat" where
  "elimination_count var val domains adj assignment =
     card {nb \<in> set (adj_get adj var).
             map_of assignment nb = None \<and> (\<exists>Dn. map_of domains nb = Some Dn \<and> val |\<in>| Dn)}"

lemma count_eliminated_eq:
  assumes "\<forall>nb \<in> set nbs. map_of assignment nb = None \<longrightarrow> nb \<in> fst ` set domains"
  shows "count_eliminated nbs val domains assignment n =
           Inr (n + length (filter (\<lambda>nb. map_of assignment nb = None \<and>
                                         (\<exists>Dn. map_of domains nb = Some Dn \<and> val |\<in>| Dn)) nbs))"
  using assms
proof (induction nbs arbitrary: n)
  case Nil
  show ?case by simp
next
  case (Cons nb nbs)
  then have IH: "\<And>n. count_eliminated nbs val domains assignment n =
           Inr (n + length (filter (\<lambda>nb. map_of assignment nb = None \<and>
                                         (\<exists>Dn. map_of domains nb = Some Dn \<and> val |\<in>| Dn)) nbs))"
    by simp
  show ?case
  proof (cases "map_of assignment nb = None")
    case True
    with Cons.prems have "nb \<in> fst ` set domains" by simp
    from key_lookup [OF this] obtain Dn where Dn: "map_of domains nb = Some Dn" ..
    with True IH show ?thesis by simp
  next
    case False
    with IH show ?thesis by simp
  qed
qed

lemma lcv_counts_eq:
  assumes "\<And>val. count_eliminated (adj_get adj var) val domains assignment 0 = Inr (ec val)"
  shows "lcv_counts vals var domains adj assignment = Inr (map (\<lambda>val. (ec val, val)) vals)"
  by (induction vals) (simp_all add: assms)

lemma lcv_sorted:
  fixes ec :: "int \<Rightarrow> nat" and xs :: "int list"
  assumes ys_def: "ys = map snd (sort (map (\<lambda>val. (ec val, val)) xs))"
  shows "set ys = set xs"
    and "distinct xs \<Longrightarrow> distinct ys"
    and "sorted_wrt (\<lambda>a b. ec a < ec b \<or> (ec a = ec b \<and> a \<le> b)) ys"
proof -
  let ?zs = "sort (map (\<lambda>val. (ec val, val)) xs)"
  have form: "z = (ec (snd z), snd z)" if "z \<in> set ?zs" for z
    using that by auto
  show "set ys = set xs"
    by (force simp: ys_def)
  show "distinct ys" if "distinct xs"
  proof -
    have "distinct (map (\<lambda>val. (ec val, val)) xs)"
      using that by (simp add: distinct_map inj_on_def)
    then have "distinct ?zs" by simp
    moreover have "inj_on snd (set ?zs)"
      by (rule inj_onI) (metis form)
    ultimately show ?thesis by (simp add: ys_def distinct_map)
  qed
  have "sorted_wrt (\<le>) ?zs" by simp
  then have "sorted_wrt (\<lambda>z1 z2. ec (snd z1) < ec (snd z2) \<or> (ec (snd z1) = ec (snd z2) \<and> snd z1 \<le> snd z2)) ?zs"
  proof (rule sorted_wrt_mono_rel [rotated])
    fix z1 z2 assume "z1 \<in> set ?zs" "z2 \<in> set ?zs" "z1 \<le> z2"
    with form [of z1] form [of z2]
    have "(ec (snd z1), snd z1) \<le> (ec (snd z2), snd z2)" by simp
    then show "ec (snd z1) < ec (snd z2) \<or> (ec (snd z1) = ec (snd z2) \<and> snd z1 \<le> snd z2)"
      by (auto simp: less_eq_prod_def)
  qed
  then show "sorted_wrt (\<lambda>a b. ec a < ec b \<or> (ec a = ec b \<and> a \<le> b)) ys"
    by (simp add: ys_def sorted_wrt_map)
qed

lemma order_domain_values_eq:
  assumes D: "map_of domains var = Some D"
    and keys: "\<forall>nb \<in> set (adj_get adj var). map_of assignment nb = None \<longrightarrow> nb \<in> fst ` set domains"
    and dist: "distinct (adj_get adj var)"
  shows "order_domain_values var domains adj assignment =
           Inr (map snd (sort (map (\<lambda>val. (elimination_count var val domains adj assignment, val))
                                 (sorted_list_of_fset D))))"
proof -
  let ?P = "\<lambda>val nb. map_of assignment nb = None \<and> (\<exists>Dn. map_of domains nb = Some Dn \<and> val |\<in>| Dn)"
  have ec: "length (filter (?P val) (adj_get adj var)) = elimination_count var val domains adj assignment"
    for val
  proof -
    have "distinct (filter (?P val) (adj_get adj var))" using dist by simp
    then have "length (filter (?P val) (adj_get adj var)) = card (set (filter (?P val) (adj_get adj var)))"
      by (rule distinct_card [symmetric])
    also have "set (filter (?P val) (adj_get adj var)) = {nb \<in> set (adj_get adj var). ?P val nb}"
      by simp
    finally show ?thesis by (simp add: elimination_count_def)
  qed
  have "count_eliminated (adj_get adj var) val domains assignment 0
          = Inr (elimination_count var val domains adj assignment)" for val
    using count_eliminated_eq [OF keys, of val 0] ec [of val] by simp
  from lcv_counts_eq [of adj var domains assignment
      "\<lambda>val. elimination_count var val domains adj assignment", OF this] D
  show ?thesis by (simp add: order_domain_values_def)
qed

text \<open>
  Claim C8.  For a variable \<open>var\<close> of the store whose unassigned neighbours are in the store and
  whose neighbour list has no duplicates, \<open>order_domain_values\<close> returns exactly the values of
  the current domain of \<open>var\<close>, each once, in ascending order of elimination count, ties broken
  by the value itself in ascending order.
\<close>

theorem lcv_ordering:
  assumes "map_of domains var = Some D"
    and "\<forall>nb \<in> set (adj_get adj var). map_of assignment nb = None \<longrightarrow> nb \<in> fst ` set domains"
    and "distinct (adj_get adj var)"
  shows "\<exists>vals. order_domain_values var domains adj assignment = Inr vals \<and>
           set vals = fset D \<and> distinct vals \<and>
           sorted_wrt (\<lambda>a b. elimination_count var a domains adj assignment
                               < elimination_count var b domains adj assignment
                           \<or> (elimination_count var a domains adj assignment
                                 = elimination_count var b domains adj assignment \<and> a \<le> b)) vals"
proof -
  let ?ec = "\<lambda>val. elimination_count var val domains adj assignment"
  let ?vals = "map snd (sort (map (\<lambda>val. (?ec val, val)) (sorted_list_of_fset D)))"
  note s = lcv_sorted [of ?vals ?ec "sorted_list_of_fset D", OF refl]
  have "set ?vals = fset D" using s(1) by simp
  moreover have "distinct ?vals" using s(2) by (simp add: sorted_list_of_fset.rep_eq)
  moreover note s(3) order_domain_values_eq [OF assms]
  ultimately show ?thesis by blast
qed

theorem lcv_ordering_witness:
  "map_of ([(1, {|1, 2, 3|}), (2, {|1|}), (3, {|1, 2|}), (4, {|3|})] :: domains) 1 = Some {|1, 2, 3|} \<and>
   distinct (adj_get (map_of [(1, [2, 3, 4])]) 1) \<and>
   order_domain_values 1 [(1, {|1, 2, 3|}), (2, {|1|}), (3, {|1, 2|}), (4, {|3|})]
       (map_of [(1, [2, 3, 4])]) [] = Inr [2, 3, 1] \<and>
   (\<exists>vals. order_domain_values 1 [(1, {|1, 2, 3|}), (2, {|1|}), (3, {|1, 2|}), (4, {|3|})]
               (map_of [(1, [2, 3, 4])]) [] = Inr vals \<and>
      set vals = fset {|1, 2, 3|} \<and> distinct vals)"
proof -
  let ?d = "[(1, {|1, 2, 3|}), (2, {|1|}), (3, {|1, 2|}), (4, {|3|})] :: domains"
  let ?adj = "map_of [(1, [2, 3, 4::int])] :: adjacency"
  have a: "map_of ?d 1 = Some {|1, 2, 3|}" by simp
  have b: "\<forall>nb \<in> set (adj_get ?adj 1). map_of ([] :: assignment) nb = None \<longrightarrow> nb \<in> fst ` set ?d"
    by (simp add: adj_get_def)
  have c: "distinct (adj_get ?adj 1)" by (simp add: adj_get_def)
  have run: "order_domain_values 1 ?d ?adj [] = Inr [2, 3, 1]" by code_simp
  from lcv_ordering [OF a b c] a c run show ?thesis by blast
qed

section \<open>The initial state of a solve\<close>

text \<open>
  The domain store and the queue that \<open>solve_graph_coloring\<close> builds (lines 165-175), and the
  condition on its input that every neighbour list of a variable names variables only.
\<close>

definition initial_domains :: "int \<Rightarrow> int list \<Rightarrow> domains" where
  "initial_domains k variables = fold (\<lambda>v ds. AList.update v (fset_of_list [1..k]) ds) variables []"

definition initial_queue :: "int list \<Rightarrow> adjacency \<Rightarrow> (int \<times> int) list" where
  "initial_queue variables adj = concat (map (\<lambda>Xi. map (\<lambda>Xj. (Xi, Xj)) (adj_get adj Xi)) variables)"

definition adjacency_within :: "int list \<Rightarrow> adjacency \<Rightarrow> bool" where
  "adjacency_within variables adj \<longleftrightarrow> (\<forall>u \<in> set variables. set (adj_get adj u) \<subseteq> set variables)"

lemma solve_graph_coloring_unfold:
  "solve_graph_coloring k variables adj =
     (case ac3 (initial_queue variables adj) (initial_domains k variables) adj [] of
        Inl e \<Rightarrow> Inl e
      | Inr (ok, domains1, trail1) \<Rightarrow>
          if \<not> ok then Inr None
          else if empty_found domains1 then Inr None
          else (case backtrack domains1 adj [] trail1 of
                  Inl e \<Rightarrow> Inl e
                | Inr (success, domains2, assignment2, trail2) \<Rightarrow>
                    if \<not> success then Inr None
                    else complete variables domains2 assignment2))"
  by (simp add: solve_graph_coloring_def initial_domains_def initial_queue_def)

lemma in_set_update:
  "(u, D) \<in> set (AList.update v c acc) \<Longrightarrow> (u, D) = (v, c) \<or> (u, D) \<in> set acc"
  by (induction acc) (auto split: if_splits)

lemma fold_update_props:
  fixes c :: "int fset"
  assumes "distinct (map fst acc)" "\<forall>(v, D) \<in> set acc. D = c"
  shows "distinct (map fst (fold (\<lambda>v ds. AList.update v c ds) vs acc)) \<and>
         fst ` set (fold (\<lambda>v ds. AList.update v c ds) vs acc) = fst ` set acc \<union> set vs \<and>
         (\<forall>(v, D) \<in> set (fold (\<lambda>v ds. AList.update v c ds) vs acc). D = c)"
  using assms
proof (induction vs arbitrary: acc)
  case Nil
  then show ?case by simp
next
  case (Cons v vs)
  have 1: "distinct (map fst (AList.update v c acc))"
    using Cons.prems(1) by (rule distinct_update)
  have 2: "\<forall>(v, D) \<in> set (AList.update v c acc). D = c"
  proof -
    have "D = c" if "(u, D) \<in> set (AList.update v c acc)" for u D
    proof -
      from that have "(u, D) = (v, c) \<or> (u, D) \<in> set acc" by (rule in_set_update)
      with Cons.prems(2) show ?thesis by auto
    qed
    then show ?thesis by blast
  qed
  from Cons.IH [OF 1 2] show ?case
    by (auto simp: keys_update)
qed

lemma initial_domains_props:
  "distinct (map fst (initial_domains k variables))"
  "fst ` set (initial_domains k variables) = set variables"
  "(v, D) \<in> set (initial_domains k variables) \<Longrightarrow> D = fset_of_list [1..k]"
  using fold_update_props [of "[]" "fset_of_list [1..k]" variables]
  by (auto simp: initial_domains_def)

lemma initial_queue_arcs:
  assumes "adjacency_within variables adj"
  shows "arcs_in (initial_queue variables adj) (initial_domains k variables)"
  using assms
  by (auto simp: arcs_in_def initial_queue_def adjacency_within_def initial_domains_props(2))

lemma initial_adj_closed:
  assumes "adjacency_within variables adj"
  shows "adj_closed adj (initial_domains k variables)"
  using assms
  by (auto simp: adj_closed_def adjacency_within_def initial_domains_props(2))

lemma empty_found_iff:
  "empty_found domains \<longleftrightarrow> (\<exists>v. map_of domains v = Some {||})"
proof -
  have "empty_found domains \<longleftrightarrow> (\<exists>x \<in> fst ` set domains. \<exists>d. map_of domains x = Some d \<and> fcard d = 0)"
    by (auto simp: empty_found_def list_ex_iff split: option.splits)
  also have "\<dots> \<longleftrightarrow> (\<exists>v. map_of domains v = Some {||})"
    by (auto dest: lookup_key)
  finally show ?thesis .
qed

lemma ac3_all_empty:
  assumes "\<forall>(v, D) \<in> set domains. D = {||}" "arcs_in queue domains"
  shows "ac3 queue domains adj trail = Inr (True, domains, trail)"
  using assms(2)
proof (induction queue)
  case Nil
  show ?case by simp
next
  case (Cons arc queue)
  obtain Xi Xj where arc: "arc = (Xi, Xj)" by (cases arc)
  from Cons.prems arc have Xi: "Xi \<in> fst ` set domains" and Xj: "Xj \<in> fst ` set domains"
    and q: "arcs_in queue domains"
    by (auto simp: arcs_in_def)
  from key_lookup [OF Xi] obtain DX where DX: "map_of domains Xi = Some DX" ..
  from key_lookup [OF Xj] obtain DY where DY: "map_of domains Xj = Some DY" ..
  from map_of_SomeD [OF DX] assms(1) have "DX = {||}" by auto
  moreover have "ffilter (\<lambda>x. DY \<noteq> {|x|}) {||} = {||}" by auto
  moreover have "set_iter {||} = []" by (simp add: set_iter_def sorted_list_of_fset.rep_eq)
  ultimately have "revise Xi Xj domains adj trail = Inr (False, domains, trail)"
    using revise_unfold [OF DX DY, of adj trail] DX
    by (simp add: update_triv)
  with Cons.IH [OF q] arc show ?case by simp
qed

section \<open>Soundness of the search\<close>

text \<open>A search that returns false has put the domains, the assignment and the trail back.\<close>

declare restore_to.simps [simp del]

lemma delete_update_fresh:
  "map_of a var = None \<Longrightarrow> AList.delete var (AList.update var v a) = a"
  by (induction a) (auto split: if_splits)

lemma forced_trailed:
  assumes "remove_values var vals d t = Inr (d1, t1)"
    and "ac3 q d1 adj t1 = Inr (c, d2, t2)"
  shows "trailed d t d2 t2"
  using ac3_trailed [OF assms(2)] remove_values_trailed [OF assms(1)]
  by (rule trailed_trans)

lemma backtrack_try_values_False:
  "backtrack domains adj assignment trail = Inr (False, d', a', t') \<Longrightarrow>
     d' = domains \<and> a' = assignment \<and> t' = trail"
  "try_values var vals domains adj assignment trail = Inr (False, d', a', t') \<Longrightarrow>
     map_of assignment var = None \<Longrightarrow>
     d' = domains \<and> a' = assignment \<and> t' = trail"
proof (induction domains adj assignment trail and var vals domains adj assignment trail
    arbitrary: d' a' t' and d' a' t' rule: backtrack_try_values.induct)
  case (1 domains adj assignment trail)
  note eq = "1.prems"
  show ?case
  proof (cases "length assignment = length domains")
    case True
    with eq show ?thesis by simp
  next
    case False
    show ?thesis
    proof (cases "select_unassigned_variable domains assignment")
      case None
      with eq False show ?thesis by simp
    next
      case (Some var)
      with eq False obtain vals where ord: "order_domain_values var domains adj assignment = Inr vals"
        and tv: "try_values var vals domains adj assignment trail = Inr (False, d', a', t')"
        by (auto split: sum.splits)
      from select_unassigned_variable_Some [OF Some] have "map_of assignment var = None" by simp
      from "1.IH" [OF False Some ord tv this] show ?thesis .
    qed
  qed
next
  case (2 var domains adj assignment trail)
  then show ?case by simp
next
  case (3 var "value" rest domains adj assignment trail)
  note eq = "3.prems"(1) and fresh = "3.prems"(2)
  from eq obtain d0 where d0: "map_of domains var = Some d0"
    by (cases "map_of domains var") auto
  from eq d0 obtain d1 t1 where rv:
    "remove_values var (filter (\<lambda>v. v \<noteq> value) (set_iter d0)) domains trail = Inr (d1, t1)"
    by (cases "remove_values var (filter (\<lambda>v. v \<noteq> value) (set_iter d0)) domains trail") auto
  from eq d0 rv obtain c d2 t2 where ac:
    "ac3 (map (\<lambda>nb. (nb, var)) (adj_get adj var)) d1 adj t1 = Inr (c, d2, t2)"
    by (cases "ac3 (map (\<lambda>nb. (nb, var)) (adj_get adj var)) d1 adj t1") auto
  let ?a1 = "AList.update var value assignment"
  let ?inner = "if c \<and> \<not> empty_found d2 then backtrack d2 adj ?a1 t2 else Inr (False, d2, ?a1, t2)"
  from eq d0 rv ac obtain r d3 a3 t3 where inner: "?inner = Inr (r, d3, a3, t3)"
    by (cases ?inner) auto
  from eq d0 rv ac inner have r: "\<not> r" by (auto split: if_splits)
  have same: "d3 = d2 \<and> a3 = ?a1 \<and> t3 = t2"
  proof (cases "c \<and> \<not> empty_found d2")
    case True
    with inner r have "backtrack d2 adj ?a1 t2 = Inr (False, d3, a3, t3)" by simp
    from "3.IH"(1) [OF d0 rv refl ac refl refl True this] show ?thesis .
  next
    case False
    with inner show ?thesis by auto
  qed
  from trailed_restore [OF forced_trailed [OF rv ac]] same
  have rs: "restore_to (length trail) d3 t3 = Inr (domains, trail)" by simp
  from same have nn: "map_of a3 var \<noteq> None" by (simp add: update_conv')
  from same fresh have del: "AList.delete var a3 = assignment" by (simp add: delete_update_fresh)
  from eq d0 rv ac inner r rs nn del
  have tv: "try_values var rest domains adj assignment trail = Inr (False, d', a', t')"
    by simp
  from "3.IH"(2) [OF d0 rv refl ac refl refl inner refl refl refl r rs refl nn] del tv fresh
  show ?case by simp
qed

text \<open>
  A successful propagation has revised every arc of its queue: if the domain of \<open>Xj\<close> was
  within \<open>{x}\<close> from the start and is \<open>{x}\<close> at the end, the final domain of \<open>Xi\<close> does not
  hold \<open>x\<close>.
\<close>

lemma trailed_lookup:
  assumes "trailed d t d' t'" "map_of d v = Some D"
  shows "\<exists>D'. map_of d' v = Some D' \<and> D' |\<subseteq>| D"
proof -
  from trailed_subset [OF assms(1)] have k: "map fst d' = map fst d"
    and sub: "\<And>v D'. map_of d' v = Some D' \<Longrightarrow> \<exists>D. map_of d v = Some D \<and> D' |\<subseteq>| D"
    by blast+
  from lookup_key [OF assms(2)] keys_cong [OF k] have "v \<in> fst ` set d'" by simp
  from key_lookup [OF this] obtain D' where D': "map_of d' v = Some D'" ..
  from sub [OF D'] assms(2) have "D' |\<subseteq>| D" by auto
  with D' show ?thesis by blast
qed

lemma ac3_arc_singleton:
  "ac3 queue domains adj trail = Inr (True, d', t') \<Longrightarrow> (Xi, Xj) \<in> set queue \<Longrightarrow>
     map_of domains Xj = Some Dj \<Longrightarrow> Dj |\<subseteq>| {|x|} \<Longrightarrow> map_of d' Xj = Some {|x|} \<Longrightarrow>
     \<exists>Di. map_of d' Xi = Some Di \<and> x |\<notin>| Di"
proof (induction queue domains adj trail arbitrary: Dj rule: ac3.induct)
  case (1 domains adj trail)
  then show ?case by simp
next
  case (2 Yi Yj queue domains adj trail)
  from "2.prems"(1) obtain r d1 t1 where rev: "revise Yi Yj domains adj trail = Inr (r, d1, t1)"
    by (auto split: sum.splits)
  let ?q' = "if r then queue @ map (\<lambda>Xk. (Xk, Yi)) (filter (\<lambda>Xk. Xk \<noteq> Yj) (adj_get adj Yi)) else queue"
  have rest: "ac3 ?q' d1 adj t1 = Inr (True, d', t')"
    using "2.prems"(1) rev by (auto split: option.splits if_splits)
  note tr1 = revise_trailed [OF rev]
  note tr2 = ac3_trailed [OF rest]
  from trailed_lookup [OF tr1 "2.prems"(3)] obtain Dj1 where Dj1: "map_of d1 Xj = Some Dj1" "Dj1 |\<subseteq>| Dj"
    by blast
  with "2.prems"(4) have Dj1x: "Dj1 |\<subseteq>| {|x|}" by auto
  show ?case
  proof (cases "(Xi, Xj) = (Yi, Yj)")
    case True
    from trailed_lookup [OF tr2 Dj1(1)] "2.prems"(5) have "{|x|} |\<subseteq>| Dj1" by auto
    with Dj1(2) "2.prems"(4) have Dj: "Dj = {|x|}" by auto
    from rev obtain DX where DX: "map_of domains Yi = Some DX"
      by (auto simp: revise_def split: option.splits)
    from True "2.prems"(3) have DY: "map_of domains Yj = Some Dj" by simp
    from revise_unfold [OF DX DY, of adj trail] rev
    have "d1 = AList.update Yi (ffilter (\<lambda>y. Dj \<noteq> {|y|}) DX) domains" by simp
    with DX have "map_of d1 Yi = Some (ffilter (\<lambda>y. Dj \<noteq> {|y|}) DX)"
      by (simp add: update_conv')
    from trailed_lookup [OF tr2 this] obtain Di where Di: "map_of d' Yi = Some Di"
      "Di |\<subseteq>| ffilter (\<lambda>y. Dj \<noteq> {|y|}) DX" by blast
    from Di(2) Dj have "x |\<notin>| Di" by auto
    with Di(1) True show ?thesis by auto
  next
    case False
    with "2.prems"(2) have mem: "(Xi, Xj) \<in> set ?q'" by auto
    show ?thesis
    proof (cases r)
      case True
      with "2.prems"(1) rev obtain D where D: "map_of d1 Yi = Some D" and ne: "fcard D \<noteq> 0"
        by (auto split: option.splits if_splits)
      from True rest mem
      have "ac3 (queue @ map (\<lambda>Xk. (Xk, Yi)) (filter (\<lambda>Xk. Xk \<noteq> Yj) (adj_get adj Yi))) d1 adj t1
              = Inr (True, d', t')"
        and "(Xi, Xj) \<in> set (queue @ map (\<lambda>Xk. (Xk, Yi)) (filter (\<lambda>Xk. Xk \<noteq> Yj) (adj_get adj Yi)))"
        by simp_all
      from "2.IH"(1) [OF rev refl refl True D ne this Dj1(1) Dj1x "2.prems"(5)]
      show ?thesis .
    next
      case False
      with rest mem have "ac3 queue d1 adj t1 = Inr (True, d', t')" and "(Xi, Xj) \<in> set queue"
        by simp_all
      from "2.IH"(2) [OF rev refl refl False this Dj1(1) Dj1x "2.prems"(5)]
      show ?thesis .
    qed
  qed
qed

text \<open>
  The invariant of the search: every assigned variable has the singleton of its colour as
  domain, and that colour is in the domain of none of its neighbours.
\<close>

definition consistent :: "adjacency \<Rightarrow> domains \<Rightarrow> assignment \<Rightarrow> bool" where
  "consistent adj d a \<longleftrightarrow>
     distinct (map fst a) \<and> distinct (map fst d) \<and> fst ` set a \<subseteq> fst ` set d \<and>
     (\<forall>u c. (u, c) \<in> set a \<longrightarrow>
        map_of d u = Some {|c|} \<and>
        (\<forall>v \<in> set (adj_get adj u). \<exists>D. map_of d v = Some D \<and> c |\<notin>| D))"

lemma forced_domain:
  assumes D: "map_of d var = Some D"
    and rv: "remove_values var (filter (\<lambda>v. v \<noteq> value) (set_iter D)) d t = Inr (d1, t1)"
  shows "\<exists>D1. map_of d1 var = Some D1 \<and> D1 |\<subseteq>| {|value|} \<and> D1 |\<subseteq>| D \<and> (value |\<in>| D \<longrightarrow> value |\<in>| D1)"
proof -
  let ?vals = "filter (\<lambda>v. v \<noteq> value) (set_iter D)"
  have "remove_values var ?vals d t = Inr (AList.update var (D |-| fset_of_list ?vals) d, t @ map (Pair var) ?vals)"
    by (rule remove_values_ok [OF D]) auto
  with rv have "d1 = AList.update var (D |-| fset_of_list ?vals) d" by simp
  with D have "map_of d1 var = Some (D |-| fset_of_list ?vals)" by (simp add: update_conv')
  moreover have "D |-| fset_of_list ?vals |\<subseteq>| {|value|}"
    by (auto simp: fset_of_list_elem)
  moreover have "value |\<in>| D |-| fset_of_list ?vals" if "value |\<in>| D"
    using that by (auto simp: fset_of_list_elem)
  ultimately show ?thesis by auto
qed

lemma nonempty_singleton: "D |\<subseteq>| {|c|} \<Longrightarrow> D \<noteq> {||} \<Longrightarrow> D = {|c|}"
  by auto

lemma assign_consistent:
  assumes cons: "consistent adj d a" and fresh: "map_of a var = None"
    and D: "map_of d var = Some D"
    and rv: "remove_values var (filter (\<lambda>v. v \<noteq> value) (set_iter D)) d t = Inr (d1, t1)"
    and ac: "ac3 (map (\<lambda>nb. (nb, var)) (adj_get adj var)) d1 adj t1 = Inr (True, d2, t2)"
    and ne: "\<not> empty_found d2"
  shows "consistent adj d2 (AList.update var value a)"
proof -
  note tr = forced_trailed [OF rv ac]
  note tr2 = ac3_trailed [OF ac]
  from trailed_subset [OF tr] have k: "map fst d2 = map fst d" by blast
  have nonempty: "D' \<noteq> {||}" if "map_of d2 v = Some D'" for v D'
    using ne that unfolding empty_found_iff by blast
  from forced_domain [OF D rv] obtain D1 where D1: "map_of d1 var = Some D1" "D1 |\<subseteq>| {|value|}"
    by blast
  from trailed_lookup [OF tr2 D1(1)] obtain D2 where D2: "map_of d2 var = Some D2" "D2 |\<subseteq>| D1"
    by blast
  from D2 D1(2) nonempty [OF D2(1)] have var2: "map_of d2 var = Some {|value|}"
    using nonempty_singleton [of D2 "value"] by auto
  have new_nb: "\<exists>Dv. map_of d2 v = Some Dv \<and> value |\<notin>| Dv" if "v \<in> set (adj_get adj var)" for v
  proof -
    from that have "(v, var) \<in> set (map (\<lambda>nb. (nb, var)) (adj_get adj var))" by auto
    from ac3_arc_singleton [OF ac this D1 var2] show ?thesis .
  qed
  have old: "map_of d2 u = Some {|c|} \<and> (\<forall>v \<in> set (adj_get adj u). \<exists>Dv. map_of d2 v = Some Dv \<and> c |\<notin>| Dv)"
    if uc: "(u, c) \<in> set a" for u c
  proof -
    from cons uc have du: "map_of d u = Some {|c|}"
      and nbs: "\<And>v. v \<in> set (adj_get adj u) \<Longrightarrow> \<exists>Dv. map_of d v = Some Dv \<and> c |\<notin>| Dv"
      unfolding consistent_def by blast+
    from trailed_lookup [OF tr du] obtain Du where Du: "map_of d2 u = Some Du" "Du |\<subseteq>| {|c|}"
      by blast
    from nonempty_singleton [OF Du(2) nonempty [OF Du(1)]] Du(1)
    have "map_of d2 u = Some {|c|}" by simp
    moreover have "\<exists>Dv. map_of d2 v = Some Dv \<and> c |\<notin>| Dv" if "v \<in> set (adj_get adj u)" for v
    proof -
      from nbs [OF that] obtain Dv where Dv: "map_of d v = Some Dv" "c |\<notin>| Dv" by blast
      from trailed_lookup [OF tr Dv(1)] Dv(2) show ?thesis by blast
    qed
    ultimately show ?thesis by blast
  qed
  have "distinct (map fst (AList.update var value a))"
    using cons unfolding consistent_def by (intro distinct_update) simp
  moreover have "distinct (map fst d2)"
    using cons k unfolding consistent_def by simp
  moreover have "fst ` set (AList.update var value a) \<subseteq> fst ` set d2"
    using cons lookup_key [OF D] keys_cong [OF k] unfolding consistent_def
    by (auto simp: keys_update)
  moreover have "map_of d2 u = Some {|c|} \<and>
        (\<forall>v \<in> set (adj_get adj u). \<exists>Dv. map_of d2 v = Some Dv \<and> c |\<notin>| Dv)"
    if "(u, c) \<in> set (AList.update var value a)" for u c
  proof -
    from in_set_update [OF that] show ?thesis
    proof
      assume "(u, c) = (var, value)"
      with var2 new_nb show ?thesis by auto
    next
      assume "(u, c) \<in> set a"
      then show ?thesis by (rule old)
    qed
  qed
  ultimately show ?thesis unfolding consistent_def by blast
qed

lemma backtrack_try_values_True:
  "backtrack domains adj assignment trail = Inr (True, d', a', t') \<Longrightarrow>
     consistent adj domains assignment \<Longrightarrow>
     consistent adj d' a' \<and> length a' = length d' \<and> trailed domains trail d' t'"
  "try_values var vals domains adj assignment trail = Inr (True, d', a', t') \<Longrightarrow>
     consistent adj domains assignment \<Longrightarrow> map_of assignment var = None \<Longrightarrow>
     consistent adj d' a' \<and> length a' = length d' \<and> trailed domains trail d' t'"
proof (induction domains adj assignment trail and var vals domains adj assignment trail
    arbitrary: d' a' t' and d' a' t' rule: backtrack_try_values.induct)
  case (1 domains adj assignment trail)
  note eq = "1.prems"(1) and cons = "1.prems"(2)
  show ?case
  proof (cases "length assignment = length domains")
    case True
    with eq cons show ?thesis by (auto intro: trailed_refl)
  next
    case False
    show ?thesis
    proof (cases "select_unassigned_variable domains assignment")
      case None
      with eq False show ?thesis by simp
    next
      case (Some var)
      with eq False obtain vals where ord: "order_domain_values var domains adj assignment = Inr vals"
        and tv: "try_values var vals domains adj assignment trail = Inr (True, d', a', t')"
        by (auto split: sum.splits)
      from select_unassigned_variable_Some [OF Some] have "map_of assignment var = None" by simp
      from "1.IH" [OF False Some ord tv cons this] show ?thesis .
    qed
  qed
next
  case (2 var domains adj assignment trail)
  then show ?case by simp
next
  case (3 var "value" rest domains adj assignment trail)
  note eq = "3.prems"(1) and cons = "3.prems"(2) and fresh = "3.prems"(3)
  from eq obtain d0 where d0: "map_of domains var = Some d0"
    by (cases "map_of domains var") auto
  from eq d0 obtain d1 t1 where rv:
    "remove_values var (filter (\<lambda>v. v \<noteq> value) (set_iter d0)) domains trail = Inr (d1, t1)"
    by (cases "remove_values var (filter (\<lambda>v. v \<noteq> value) (set_iter d0)) domains trail") auto
  from eq d0 rv obtain c d2 t2 where ac:
    "ac3 (map (\<lambda>nb. (nb, var)) (adj_get adj var)) d1 adj t1 = Inr (c, d2, t2)"
    by (cases "ac3 (map (\<lambda>nb. (nb, var)) (adj_get adj var)) d1 adj t1") auto
  let ?a1 = "AList.update var value assignment"
  let ?inner = "if c \<and> \<not> empty_found d2 then backtrack d2 adj ?a1 t2 else Inr (False, d2, ?a1, t2)"
  from eq d0 rv ac obtain r d3 a3 t3 where inner: "?inner = Inr (r, d3, a3, t3)"
    by (cases ?inner) auto
  show ?case
  proof (cases r)
    case True
    with inner have ok: "c \<and> \<not> empty_found d2" by (auto split: if_splits)
    with inner True have bt: "backtrack d2 adj ?a1 t2 = Inr (True, d3, a3, t3)" by simp
    from eq d0 rv ac inner True have res: "d' = d3" "a' = a3" "t' = t3" by simp_all
    from ok ac have ac': "ac3 (map (\<lambda>nb. (nb, var)) (adj_get adj var)) d1 adj t1 = Inr (True, d2, t2)"
      by simp
    from assign_consistent [OF cons fresh d0 rv ac'] ok
    have "consistent adj d2 ?a1" by simp
    from "3.IH"(1) [OF d0 rv refl ac refl refl ok bt this]
    have "consistent adj d3 a3 \<and> length a3 = length d3 \<and> trailed d2 t2 d3 t3" .
    moreover note forced_trailed [OF rv ac]
    ultimately show ?thesis using res by (auto intro: trailed_trans)
  next
    case False
    have same: "d3 = d2 \<and> a3 = ?a1 \<and> t3 = t2"
    proof (cases "c \<and> \<not> empty_found d2")
      case True
      with inner False have "backtrack d2 adj ?a1 t2 = Inr (False, d3, a3, t3)" by simp
      from backtrack_try_values_False(1) [OF this] show ?thesis .
    next
      case False
      with inner show ?thesis by auto
    qed
    from trailed_restore [OF forced_trailed [OF rv ac]] same
    have rs: "restore_to (length trail) d3 t3 = Inr (domains, trail)" by simp
    from same have nn: "map_of a3 var \<noteq> None" by (simp add: update_conv')
    from same fresh have del: "AList.delete var a3 = assignment" by (simp add: delete_update_fresh)
    from eq d0 rv ac inner False rs nn del
    have tv: "try_values var rest domains adj assignment trail = Inr (True, d', a', t')"
      by simp
    from "3.IH"(2) [OF d0 rv refl ac refl refl inner refl refl refl False rs refl nn] del tv cons fresh
    show ?thesis by simp
  qed
qed

lemma complete_assigned:
  "\<forall>v \<in> set vs. map_of a v \<noteq> None \<Longrightarrow> complete vs d a = Inr (Some a)"
  by (induction vs) auto

lemma full_assignment_keys:
  assumes "distinct (map fst a)" "distinct (map fst d)" "fst ` set a \<subseteq> fst ` set d"
    "length a = length d"
  shows "fst ` set a = fst ` set d"
proof -
  have "card (fst ` set a) = length a"
    using assms(1) distinct_card [of "map fst a"] by simp
  moreover have "card (fst ` set d) = length d"
    using assms(2) distinct_card [of "map fst d"] by simp
  ultimately have "card (fst ` set a) = card (fst ` set d)" using assms(4) by simp
  with assms(3) show ?thesis by (intro card_subset_eq) auto
qed

lemma solve_graph_coloring_SomeD:
  assumes "solve_graph_coloring k variables adj = Inr (Some a)"
  shows "\<exists>d1 t1 d2 t2.
           ac3 (initial_queue variables adj) (initial_domains k variables) adj [] = Inr (True, d1, t1) \<and>
           \<not> empty_found d1 \<and>
           backtrack d1 adj [] t1 = Inr (True, d2, a, t2) \<and>
           consistent adj d2 a \<and> fst ` set a = set variables \<and>
           trailed (initial_domains k variables) [] d2 t2"
proof -
  let ?d0 = "initial_domains k variables"
  note eq = assms [unfolded solve_graph_coloring_unfold]
  from eq obtain ok d1 t1 where ac: "ac3 (initial_queue variables adj) ?d0 adj [] = Inr (ok, d1, t1)"
    by (cases "ac3 (initial_queue variables adj) ?d0 adj []") auto
  from eq ac have ok: ok and ne: "\<not> empty_found d1" by (auto split: if_splits)
  from eq ac ok ne obtain s d2 a2 t2 where bt: "backtrack d1 adj [] t1 = Inr (s, d2, a2, t2)"
    by (cases "backtrack d1 adj [] t1") auto
  from eq ac ok ne bt have s: s and comp: "complete variables d2 a2 = Inr (Some a)"
    by (auto split: if_splits)
  note tr1 = ac3_trailed [OF ac]
  from trailed_subset [OF tr1] have k1: "map fst d1 = map fst ?d0" by blast
  have "consistent adj d1 []"
    using k1 initial_domains_props(1) [of k variables] by (simp add: consistent_def)
  from backtrack_try_values_True(1) [OF bt [unfolded eqTrueI [OF s]] this]
  have cons: "consistent adj d2 a2" and len: "length a2 = length d2" and tr2: "trailed d1 t1 d2 t2"
    by blast+
  from trailed_subset [OF tr2] k1 have k2: "map fst d2 = map fst ?d0" by simp
  from cons len have "fst ` set a2 = fst ` set d2"
    unfolding consistent_def by (intro full_assignment_keys) blast+
  with keys_cong [OF k2] have keys: "fst ` set a2 = set variables"
    by (simp add: initial_domains_props(2))
  have "\<forall>v \<in> set variables. map_of a2 v \<noteq> None"
    using keys by (simp add: map_of_eq_None_iff)
  from complete_assigned [OF this] comp have "a = a2" by simp
  with ac ok ne bt s cons keys trailed_trans [OF tr2 tr1] show ?thesis
    by (intro exI [of _ d1] exI [of _ t1] exI [of _ d2] exI [of _ t2]) simp
qed

text \<open>
  Claim C1.  Whenever \<open>solve_graph_coloring\<close> returns a dictionary, for any \<open>k\<close>, variables and
  adjacency, that dictionary has exactly the input variables as keys, each once; every colour
  in it lies between \<open>1\<close> and \<open>k\<close>; and for every variable \<open>u\<close> and every \<open>v\<close> in the neighbour
  list of \<open>u\<close>, both have a colour and the two colours differ.
\<close>

theorem solve_graph_coloring_sound:
  assumes "solve_graph_coloring k variables adj = Inr (Some a)"
  shows "distinct (map fst a) \<and> fst ` set a = set variables \<and>
         (\<forall>(v, c) \<in> set a. 1 \<le> c \<and> c \<le> k) \<and>
         (\<forall>u \<in> set variables. \<forall>v \<in> set (adj_get adj u).
            \<exists>cu cv. map_of a u = Some cu \<and> map_of a v = Some cv \<and> cu \<noteq> cv)"
proof -
  let ?d0 = "initial_domains k variables"
  from solve_graph_coloring_SomeD [OF assms] obtain d2 t2 where
    cons: "consistent adj d2 a" and keys: "fst ` set a = set variables"
    and tr: "trailed ?d0 [] d2 t2" by blast
  from cons have dist: "distinct (map fst a)"
    and single: "\<And>u c. (u, c) \<in> set a \<Longrightarrow> map_of d2 u = Some {|c|}"
    and nbs: "\<And>u c v. (u, c) \<in> set a \<Longrightarrow> v \<in> set (adj_get adj u) \<Longrightarrow>
                \<exists>D. map_of d2 v = Some D \<and> c |\<notin>| D"
    and sub: "fst ` set a \<subseteq> fst ` set d2" and dist2: "distinct (map fst d2)"
    unfolding consistent_def by blast+
  from trailed_subset [OF tr] have k2: "map fst d2 = map fst ?d0" by blast
  have keys2: "fst ` set d2 = set variables"
    using keys_cong [OF k2] by (simp add: initial_domains_props(2))
  have colors: "1 \<le> c \<and> c \<le> k" if "(v, c) \<in> set a" for v c
  proof -
    from trailed_subset [OF tr] single [OF that]
    obtain D where D: "map_of ?d0 v = Some D" "{|c|} |\<subseteq>| D" by blast
    from initial_domains_props(3) [OF map_of_SomeD [OF D(1)]] D(2)
    have "c |\<in>| fset_of_list [1..k]" by auto
    then show ?thesis by (simp add: fset_of_list_elem)
  qed
  have edges: "\<exists>cu cv. map_of a u = Some cu \<and> map_of a v = Some cv \<and> cu \<noteq> cv"
    if "u \<in> set variables" "v \<in> set (adj_get adj u)" for u v
  proof -
    from that(1) keys obtain cu where cu: "(u, cu) \<in> set a" by force
    from nbs [OF cu that(2)] obtain D where D: "map_of d2 v = Some D" "cu |\<notin>| D" by blast
    from lookup_key [OF D(1)] keys2 keys obtain cv where cv: "(v, cv) \<in> set a" by force
    from single [OF cv] D have "cu \<noteq> cv" by auto
    moreover from dist cu have "map_of a u = Some cu" by simp
    moreover from dist cv have "map_of a v = Some cv" by simp
    ultimately show ?thesis by blast
  qed
  from dist keys colors edges show ?thesis by blast
qed

theorem solve_graph_coloring_sound_witness:
  "solve_graph_coloring 3 [1, 2, 3, 4] (map_of [(1, [2, 3]), (2, [1, 3]), (3, [1, 2, 4]), (4, [3])])
     = Inr (Some [(1, 1), (2, 2), (3, 3), (4, 1)]) \<and>
   distinct (map fst ([(1, 1), (2, 2), (3, 3), (4, 1)] :: assignment)) \<and>
   fst ` set ([(1, 1), (2, 2), (3, 3), (4, 1)] :: assignment) = set [1, 2, 3, 4] \<and>
   (\<exists>cu cv. map_of ([(1, 1), (2, 2), (3, 3), (4, 1)] :: assignment) 3 = Some cu \<and>
            map_of ([(1, 1), (2, 2), (3, 3), (4, 1)] :: assignment) 4 = Some cv \<and> cu \<noteq> cv)"
proof -
  let ?adj = "map_of [(1, [2, 3]), (2, [1, 3]), (3, [1, 2, 4]), (4, [3::int])] :: adjacency"
  let ?a = "[(1, 1), (2, 2), (3, 3), (4, 1)] :: assignment"
  have run: "solve_graph_coloring 3 [1, 2, 3, 4] ?adj = Inr (Some ?a)"
    by code_simp
  have e: "(4::int) \<in> set (adj_get ?adj 3)" by (simp add: adj_get_def)
  have v: "(3::int) \<in> set [1, 2, 3, 4]" by simp
  from solve_graph_coloring_sound [OF run] e v run show ?thesis by blast
qed

section \<open>Completeness of the search\<close>

text \<open>
  A valid colouring of the input: every variable has a colour between \<open>1\<close> and \<open>k\<close>, and the
  two ends of every edge have different colours.  A colouring is supported by a domain store
  when every domain holds the colour of its variable; propagation keeps a proper colouring
  supported, so the branch that assigns a variable its colour cannot fail.
\<close>

definition valid_coloring :: "int \<Rightarrow> int list \<Rightarrow> adjacency \<Rightarrow> (int \<Rightarrow> int) \<Rightarrow> bool" where
  "valid_coloring k variables adj col \<longleftrightarrow>
     (\<forall>v \<in> set variables. 1 \<le> col v \<and> col v \<le> k) \<and>
     (\<forall>u \<in> set variables. \<forall>v \<in> set (adj_get adj u). col u \<noteq> col v)"

definition supports :: "(int \<Rightarrow> int) \<Rightarrow> domains \<Rightarrow> bool" where
  "supports col d \<longleftrightarrow> (\<forall>v D. map_of d v = Some D \<longrightarrow> col v |\<in>| D)"

definition proper :: "adjacency \<Rightarrow> domains \<Rightarrow> (int \<Rightarrow> int) \<Rightarrow> bool" where
  "proper adj d col \<longleftrightarrow> (\<forall>u \<in> fst ` set d. \<forall>v \<in> set (adj_get adj u). col u \<noteq> col v)"

definition arcs_edges :: "adjacency \<Rightarrow> (int \<times> int) list \<Rightarrow> bool" where
  "arcs_edges adj q \<longleftrightarrow>
     (\<forall>(Xi, Xj) \<in> set q. Xj \<in> set (adj_get adj Xi) \<or> Xi \<in> set (adj_get adj Xj))"

definition search_ok :: "adjacency \<Rightarrow> domains \<Rightarrow> assignment \<Rightarrow> bool" where
  "search_ok adj d a \<longleftrightarrow>
     distinct (map fst a) \<and> distinct (map fst d) \<and> fst ` set a \<subseteq> fst ` set d \<and> adj_closed adj d"

lemma proper_cong: "map fst d' = map fst d \<Longrightarrow> proper adj d' col = proper adj d col"
  using keys_cong [of d' d] by (simp add: proper_def)

lemma supports_update:
  assumes "supports col d" "col X |\<in>| D'"
  shows "supports col (AList.update X D' d)"
  using assms by (auto simp: supports_def update_conv')

lemma supports_nonempty: "supports col d \<Longrightarrow> \<not> empty_found d"
  unfolding empty_found_iff supports_def by (metis fempty_iff)

lemma revise_supports:
  assumes sup: "supports col d" and DX: "map_of d Xi = Some DX" and DY: "map_of d Xj = Some DY"
    and ne: "col Xi \<noteq> col Xj" and rev: "revise Xi Xj d adj t = Inr (r, d1, t1)"
  shows "supports col d1"
proof -
  from revise_unfold [OF DX DY, of adj t] rev
  have d1: "d1 = AList.update Xi (ffilter (\<lambda>x. DY \<noteq> {|x|}) DX) d" by simp
  from sup DX DY have "col Xi |\<in>| DX" "col Xj |\<in>| DY" by (auto simp: supports_def)
  with ne have "col Xi |\<in>| ffilter (\<lambda>x. DY \<noteq> {|x|}) DX" by auto
  with sup show ?thesis unfolding d1 by (rule supports_update)
qed

lemma ac3_supports:
  "arcs_in queue domains \<Longrightarrow> arcs_edges adj queue \<Longrightarrow> adj_closed adj domains \<Longrightarrow>
     proper adj domains col \<Longrightarrow> supports col domains \<Longrightarrow>
     \<exists>d' t'. ac3 queue domains adj trail = Inr (True, d', t') \<and> supports col d'"
proof (induction queue domains adj trail rule: ac3.induct)
  case (1 domains adj trail)
  then show ?case by simp
next
  case (2 Xi Xj queue domains adj trail)
  from "2.prems"(1) have Xi: "Xi \<in> fst ` set domains" and Xj: "Xj \<in> fst ` set domains"
    and q: "arcs_in queue domains"
    by (auto simp: arcs_in_def)
  from "2.prems"(2) have edge: "Xj \<in> set (adj_get adj Xi) \<or> Xi \<in> set (adj_get adj Xj)"
    and qe: "arcs_edges adj queue"
    by (auto simp: arcs_edges_def)
  from edge Xi Xj "2.prems"(4) have ne: "col Xi \<noteq> col Xj"
    unfolding proper_def by metis
  from key_lookup [OF Xi] obtain DX where DX: "map_of domains Xi = Some DX" ..
  from key_lookup [OF Xj] obtain DY where DY: "map_of domains Xj = Some DY" ..
  from revise_unfold [OF DX DY, of adj trail] obtain r d1 t1
    where rev: "revise Xi Xj domains adj trail = Inr (r, d1, t1)" by blast
  note k1 = revise_keys [OF rev]
  note sup1 = revise_supports [OF "2.prems"(5) DX DY ne rev]
  have q1: "arcs_in queue d1" using q arcs_in_cong [OF k1] by simp
  have c1: "adj_closed adj d1" using "2.prems"(3) adj_closed_cong [OF k1] by simp
  have p1: "proper adj d1 col" using "2.prems"(4) proper_cong [OF k1] by simp
  show ?case
  proof (cases r)
    case True
    from Xi keys_cong [OF k1] have "Xi \<in> fst ` set d1" by simp
    from key_lookup [OF this] obtain D where D: "map_of d1 Xi = Some D" ..
    from sup1 D have "col Xi |\<in>| D" by (auto simp: supports_def)
    then have ne0: "fcard D \<noteq> 0" by auto
    let ?q' = "queue @ map (\<lambda>Xk. (Xk, Xi)) (filter (\<lambda>Xk. Xk \<noteq> Xj) (adj_get adj Xi))"
    have "arcs_in ?q' domains"
      using q Xi "2.prems"(3) by (auto simp: arcs_in_def adj_closed_def)
    then have a: "arcs_in ?q' d1" using arcs_in_cong [OF k1] by simp
    have e: "arcs_edges adj ?q'"
      using qe by (auto simp: arcs_edges_def)
    from "2.IH"(1) [OF rev refl refl True D ne0 a e c1 p1 sup1] rev True D ne0
    show ?thesis by simp
  next
    case False
    from "2.IH"(2) [OF rev refl refl False q1 qe c1 p1 sup1] rev False
    show ?thesis by simp
  qed
qed

lemma forced_ok:
  assumes D: "map_of d var = Some D"
  shows "\<exists>d1 t1. remove_values var (filter (\<lambda>v. v \<noteq> value) (set_iter D)) d t = Inr (d1, t1)"
proof -
  have "remove_values var (filter (\<lambda>v. v \<noteq> value) (set_iter D)) d t =
      Inr (AList.update var (D |-| fset_of_list (filter (\<lambda>v. v \<noteq> value) (set_iter D))) d,
           t @ map (Pair var) (filter (\<lambda>v. v \<noteq> value) (set_iter D)))"
    by (rule remove_values_ok [OF D]) auto
  then show ?thesis by blast
qed

lemma forced_supports:
  assumes D: "map_of d var = Some D" and sup: "supports col d"
    and rv: "remove_values var (filter (\<lambda>v. v \<noteq> col var) (set_iter D)) d t = Inr (d1, t1)"
  shows "supports col d1"
proof -
  let ?vals = "filter (\<lambda>v. v \<noteq> col var) (set_iter D)"
  have "remove_values var ?vals d t = Inr (AList.update var (D |-| fset_of_list ?vals) d, t @ map (Pair var) ?vals)"
    by (rule remove_values_ok [OF D]) auto
  with rv have d1: "d1 = AList.update var (D |-| fset_of_list ?vals) d" by simp
  from sup D have "col var |\<in>| D" by (auto simp: supports_def)
  then have "col var |\<in>| D |-| fset_of_list ?vals" by (auto simp: fset_of_list_elem)
  with sup show ?thesis unfolding d1 by (rule supports_update)
qed

lemma select_exists:
  assumes "search_ok adj d a" "length a \<noteq> length d"
  shows "\<exists>var. select_unassigned_variable d a = Some var"
proof (rule ccontr)
  assume "\<nexists>var. select_unassigned_variable d a = Some var"
  then have "select_unassigned_variable d a = None" by auto
  then have "\<forall>v \<in> fst ` set d. map_of a v \<noteq> None"
    unfolding select_unassigned_variable_None .
  then have "fst ` set d \<subseteq> fst ` set a"
    by (auto simp: map_of_eq_None_iff)
  with assms(1) have eq: "fst ` set a = fst ` set d" unfolding search_ok_def by blast
  have "card (fst ` set a) = length a"
    using assms(1) distinct_card [of "map fst a"] unfolding search_ok_def by simp
  moreover have "card (fst ` set d) = length d"
    using assms(1) distinct_card [of "map fst d"] unfolding search_ok_def by simp
  ultimately show False using eq assms(2) by simp
qed

lemma order_domain_values_set:
  assumes D: "map_of domains var = Some D"
    and keys: "\<forall>nb \<in> set (adj_get adj var). map_of assignment nb = None \<longrightarrow> nb \<in> fst ` set domains"
  shows "\<exists>vals. order_domain_values var domains adj assignment = Inr vals \<and> set vals = fset D"
proof -
  let ?ec = "\<lambda>val. length (filter (\<lambda>nb. map_of assignment nb = None \<and>
                 (\<exists>Dn. map_of domains nb = Some Dn \<and> val |\<in>| Dn)) (adj_get adj var))"
  have "count_eliminated (adj_get adj var) val domains assignment 0 = Inr (?ec val)" for val
    using count_eliminated_eq [OF keys, of val 0] by simp
  from lcv_counts_eq [of adj var domains assignment ?ec, OF this] D
  have "order_domain_values var domains adj assignment =
          Inr (map snd (sort (map (\<lambda>val. (?ec val, val)) (sorted_list_of_fset D))))"
    by (simp add: order_domain_values_def)
  moreover have "set (map snd (sort (map (\<lambda>val. (?ec val, val)) (sorted_list_of_fset D)))) = fset D"
    using lcv_sorted(1) [OF refl, of ?ec "sorted_list_of_fset D"] by simp
  ultimately show ?thesis by blast
qed

lemma search_ok_assign:
  assumes ok: "search_ok adj d a" and key: "var \<in> fst ` set d" and k2: "map fst d2 = map fst d"
  shows "search_ok adj d2 (AList.update var value a)"
proof -
  from ok have "distinct (map fst (AList.update var value a))"
    unfolding search_ok_def by (intro distinct_update) simp
  moreover from ok k2 have "distinct (map fst d2)" unfolding search_ok_def by simp
  moreover from ok key keys_cong [OF k2] have "fst ` set (AList.update var value a) \<subseteq> fst ` set d2"
    unfolding search_ok_def by (auto simp: keys_update)
  moreover from ok adj_closed_cong [OF k2] have "adj_closed adj d2" unfolding search_ok_def by simp
  ultimately show ?thesis unfolding search_ok_def by blast
qed

lemma backtrack_try_values_complete:
  "search_ok adj domains assignment \<Longrightarrow>
     \<exists>b d' a' t'. backtrack domains adj assignment trail = Inr (b, d', a', t') \<and>
       (\<not> b \<longrightarrow> \<not> (\<exists>col. proper adj domains col \<and> supports col domains))"
  "search_ok adj domains assignment \<Longrightarrow> map_of assignment var = None \<Longrightarrow>
     var \<in> fst ` set domains \<Longrightarrow>
     \<exists>b d' a' t'. try_values var vals domains adj assignment trail = Inr (b, d', a', t') \<and>
       (\<not> b \<longrightarrow> \<not> (\<exists>col. proper adj domains col \<and> supports col domains \<and> col var \<in> set vals))"
proof (induction domains adj assignment trail and var vals domains adj assignment trail
    rule: backtrack_try_values.induct)
  case (1 domains adj assignment trail)
  note ok = "1.prems"
  show ?case
  proof (cases "length assignment = length domains")
    case True
    then show ?thesis by auto
  next
    case False
    from select_exists [OF ok False] obtain var
      where sel: "select_unassigned_variable domains assignment = Some var" ..
    from select_unassigned_variable_Some [OF sel]
    have key: "var \<in> fst ` set domains" and fresh: "map_of assignment var = None" by simp_all
    from key_lookup [OF key] obtain D where D: "map_of domains var = Some D" ..
    have "\<forall>nb \<in> set (adj_get adj var). map_of assignment nb = None \<longrightarrow> nb \<in> fst ` set domains"
      using ok key unfolding search_ok_def adj_closed_def by blast
    from order_domain_values_set [OF D this] obtain vals
      where ord: "order_domain_values var domains adj assignment = Inr vals"
        and vals: "set vals = fset D" by blast
    from "1.IH" [OF False sel ord ok fresh key] obtain b d' a' t'
      where tv: "try_values var vals domains adj assignment trail = Inr (b, d', a', t')"
        and fail: "\<not> b \<Longrightarrow> \<not> (\<exists>col. proper adj domains col \<and> supports col domains \<and> col var \<in> set vals)"
      by blast
    have "\<not> (\<exists>col. proper adj domains col \<and> supports col domains)" if "\<not> b"
    proof
      assume "\<exists>col. proper adj domains col \<and> supports col domains"
      then obtain col where col: "proper adj domains col" "supports col domains" by blast
      from col(2) D have "col var |\<in>| D" by (auto simp: supports_def)
      with vals have "col var \<in> set vals" by simp
      with fail [OF that] col show False by blast
    qed
    with tv False sel ord show ?thesis by auto
  qed
next
  case (2 var domains adj assignment trail)
  show ?case by auto
next
  case (3 var "value" rest domains adj assignment trail)
  note ok = "3.prems"(1) and fresh = "3.prems"(2) and key = "3.prems"(3)
  from key_lookup [OF key] obtain d0 where d0: "map_of domains var = Some d0" ..
  from forced_ok [OF d0] obtain d1 t1 where rv:
    "remove_values var (filter (\<lambda>v. v \<noteq> value) (set_iter d0)) domains trail = Inr (d1, t1)"
    by blast
  note k1 = remove_values_keys [OF rv]
  from ok have closed: "adj_closed adj domains" unfolding search_ok_def by blast
  let ?q = "map (\<lambda>nb. (nb, var)) (adj_get adj var)"
  have "arcs_in ?q domains"
    using closed key by (auto simp: arcs_in_def adj_closed_def)
  then have arcs1: "arcs_in ?q d1" using arcs_in_cong [OF k1] by simp
  have closed1: "adj_closed adj d1" using closed adj_closed_cong [OF k1] by simp
  from ac3_no_error [OF arcs1 closed1] obtain c d2 t2 where ac:
    "ac3 ?q d1 adj t1 = Inr (c, d2, t2)" by blast
  have k2: "map fst d2 = map fst domains" using ac3_keys [OF ac] k1 by simp
  let ?a1 = "AList.update var value assignment"
  note ok2 = search_ok_assign [OF ok key k2, of "value"]
  let ?inner = "if c \<and> \<not> empty_found d2 then backtrack d2 adj ?a1 t2 else Inr (False, d2, ?a1, t2)"
  have "\<exists>r d3 a3 t3. ?inner = Inr (r, d3, a3, t3) \<and>
          (c \<and> \<not> empty_found d2 \<and> \<not> r \<longrightarrow> \<not> (\<exists>col. proper adj d2 col \<and> supports col d2))"
  proof (cases "c \<and> \<not> empty_found d2")
    case True
    from "3.IH"(1) [OF d0 rv refl ac refl refl True ok2] True show ?thesis by auto
  next
    case False
    then show ?thesis by auto
  qed
  then obtain r d3 a3 t3 where inner: "?inner = Inr (r, d3, a3, t3)"
    and inner_fail: "c \<and> \<not> empty_found d2 \<and> \<not> r \<longrightarrow> \<not> (\<exists>col. proper adj d2 col \<and> supports col d2)"
    by blast
  show ?case
  proof (cases r)
    case True
    with d0 rv ac inner show ?thesis by auto
  next
    case False
    have same: "d3 = d2 \<and> a3 = ?a1 \<and> t3 = t2"
    proof (cases "c \<and> \<not> empty_found d2")
      case True
      with inner False have "backtrack d2 adj ?a1 t2 = Inr (False, d3, a3, t3)" by simp
      from backtrack_try_values_False(1) [OF this] show ?thesis .
    next
      case False
      with inner show ?thesis by auto
    qed
    from trailed_restore [OF forced_trailed [OF rv ac]] same
    have rs: "restore_to (length trail) d3 t3 = Inr (domains, trail)" by simp
    from same have nn': "map_of a3 var = Some value" by (simp add: update_conv')
    then have nn: "map_of a3 var \<noteq> None" by simp
    from same fresh have del: "AList.delete var a3 = assignment" by (simp add: delete_update_fresh)
    from d0 rv ac inner False rs nn' del
    have unfold: "try_values var (value # rest) domains adj assignment trail
                    = try_values var rest domains adj assignment trail"
      by simp
    from "3.IH"(2) [OF d0 rv refl ac refl refl inner refl refl refl False rs refl nn] del ok fresh key
    obtain b d' a' t' where tv: "try_values var rest domains adj assignment trail = Inr (b, d', a', t')"
      and fail: "\<not> b \<Longrightarrow> \<not> (\<exists>col. proper adj domains col \<and> supports col domains \<and> col var \<in> set rest)"
      by auto
    have "\<not> (\<exists>col. proper adj domains col \<and> supports col domains \<and> col var \<in> set (value # rest))"
      if nb: "\<not> b"
    proof
      assume "\<exists>col. proper adj domains col \<and> supports col domains \<and> col var \<in> set (value # rest)"
      then obtain col where col: "proper adj domains col" "supports col domains"
        "col var \<in> set (value # rest)" by blast
      from fail [OF nb] col have "col var \<notin> set rest" by blast
      with col(3) have cv: "col var = value" by simp
      from rv cv have rv': "remove_values var (filter (\<lambda>v. v \<noteq> col var) (set_iter d0)) domains trail
                              = Inr (d1, t1)" by simp
      note sup1 = forced_supports [OF d0 col(2) rv']
      have p1: "proper adj d1 col" using col(1) proper_cong [OF k1] by simp
      have e: "arcs_edges adj ?q" by (auto simp: arcs_edges_def)
      from ac3_supports [OF arcs1 e closed1 p1 sup1, of t1] ac
      have c: c and sup2: "supports col d2" by auto
      from supports_nonempty [OF sup2] c have go: "c \<and> \<not> empty_found d2" by simp
      have p2: "proper adj d2 col" using col(1) proper_cong [OF k2] by simp
      from inner_fail go False p2 sup2 show False by blast
    qed
    with tv unfold show ?thesis by auto
  qed
qed

lemma valid_coloring_solved:
  assumes within: "adjacency_within variables adj"
    and col: "valid_coloring k variables adj col"
  shows "\<exists>a. solve_graph_coloring k variables adj = Inr (Some a)"
proof -
  let ?d0 = "initial_domains k variables"
  let ?q = "initial_queue variables adj"
  have keys0: "fst ` set ?d0 = set variables" by (rule initial_domains_props(2))
  have sup0: "supports col ?d0"
    unfolding supports_def
  proof (intro allI impI)
    fix v D assume D: "map_of ?d0 v = Some D"
    from lookup_key [OF D] keys0 have "v \<in> set variables" by simp
    with col have "1 \<le> col v \<and> col v \<le> k" unfolding valid_coloring_def by blast
    moreover from initial_domains_props(3) [OF map_of_SomeD [OF D]]
    have "D = fset_of_list [1..k]" .
    ultimately show "col v |\<in>| D" by (simp add: fset_of_list_elem)
  qed
  have p0: "proper adj ?d0 col"
    using col unfolding proper_def valid_coloring_def keys0 by blast
  have e0: "arcs_edges adj ?q"
    by (auto simp: arcs_edges_def initial_queue_def)
  from ac3_supports [OF initial_queue_arcs [OF within] e0 initial_adj_closed [OF within] p0 sup0, of "[]"]
  obtain d1 t1 where ac: "ac3 ?q ?d0 adj [] = Inr (True, d1, t1)" and sup1: "supports col d1"
    by blast
  note k1 = ac3_keys [OF ac]
  note ne = supports_nonempty [OF sup1]
  have p1: "proper adj d1 col" using p0 proper_cong [OF k1] by simp
  have ok1: "search_ok adj d1 []"
    using k1 initial_domains_props(1) [of k variables]
      initial_adj_closed [OF within, of k] adj_closed_cong [OF k1, of adj]
    by (simp add: search_ok_def)
  from backtrack_try_values_complete(1) [OF ok1, of t1] p1 sup1
  obtain d2 a2 t2 where bt: "backtrack d1 adj [] t1 = Inr (True, d2, a2, t2)"
    by (metis (full_types))
  have "consistent adj d1 []"
    using k1 initial_domains_props(1) [of k variables] by (simp add: consistent_def)
  from backtrack_try_values_True(1) [OF bt this]
  have cons: "consistent adj d2 a2" and len: "length a2 = length d2" and tr2: "trailed d1 t1 d2 t2"
    by blast+
  from trailed_subset [OF tr2] k1 have k2: "map fst d2 = map fst ?d0" by simp
  from cons len have "fst ` set a2 = fst ` set d2"
    unfolding consistent_def by (intro full_assignment_keys) blast+
  with keys_cong [OF k2] keys0 have "fst ` set a2 = set variables" by simp
  then have "\<forall>v \<in> set variables. map_of a2 v \<noteq> None"
    by (simp add: map_of_eq_None_iff)
  from complete_assigned [OF this] have "complete variables d2 a2 = Inr (Some a2)" .
  with ac ne bt have "solve_graph_coloring k variables adj = Inr (Some a2)"
    by (simp add: solve_graph_coloring_unfold)
  then show ?thesis ..
qed

text \<open>
  Claim C2.  Let every neighbour list of a variable name variables only.  If the graph has a
  valid \<open>k\<close>-colouring, \<open>solve_graph_coloring\<close> returns a dictionary; hence it returns \<open>None\<close>
  only when there is no valid \<open>k\<close>-colouring.  For \<open>k = 2\<close> and the triangle on \<open>1, 2, 3\<close> it
  returns \<open>None\<close>.  Symmetry of the adjacency, absence of self-loops and \<open>k \<ge> 1\<close> are not needed.
\<close>

theorem solve_graph_coloring_complete:
  assumes "adjacency_within variables adj"
  shows "((\<exists>col. valid_coloring k variables adj col) \<longrightarrow>
            (\<exists>a. solve_graph_coloring k variables adj = Inr (Some a))) \<and>
         (solve_graph_coloring k variables adj = Inr None \<longrightarrow>
            \<not> (\<exists>col. valid_coloring k variables adj col)) \<and>
         solve_graph_coloring 2 [1, 2, 3] (map_of [(1, [2, 3]), (2, [1, 3]), (3, [1, 2])]) = Inr None"
proof (intro conjI impI)
  assume "\<exists>col. valid_coloring k variables adj col"
  then show "\<exists>a. solve_graph_coloring k variables adj = Inr (Some a)"
    using valid_coloring_solved [OF assms] by blast
next
  assume none: "solve_graph_coloring k variables adj = Inr None"
  show "\<not> (\<exists>col. valid_coloring k variables adj col)"
  proof
    assume "\<exists>col. valid_coloring k variables adj col"
    then obtain a where "solve_graph_coloring k variables adj = Inr (Some a)"
      using valid_coloring_solved [OF assms] by blast
    with none show False by simp
  qed
next
  show "solve_graph_coloring 2 [1, 2, 3] (map_of [(1, [2, 3]), (2, [1, 3]), (3, [1, 2])]) = Inr None"
    by code_simp
qed

theorem solve_graph_coloring_complete_witness:
  "adjacency_within [1, 2, 3, 4] (map_of [(1, [2, 3]), (2, [1, 3]), (3, [1, 2, 4]), (4, [3])]) \<and>
   valid_coloring 3 [1, 2, 3, 4] (map_of [(1, [2, 3]), (2, [1, 3]), (3, [1, 2, 4]), (4, [3])])
     (\<lambda>v. if v = 4 then 1 else v) \<and>
   (\<exists>a. solve_graph_coloring 3 [1, 2, 3, 4]
           (map_of [(1, [2, 3]), (2, [1, 3]), (3, [1, 2, 4]), (4, [3])]) = Inr (Some a))"
proof -
  let ?adj = "map_of [(1, [2, 3]), (2, [1, 3]), (3, [1, 2, 4]), (4, [3::int])] :: adjacency"
  have w: "adjacency_within [1, 2, 3, 4] ?adj"
    by (auto simp: adjacency_within_def adj_get_def)
  have v: "valid_coloring 3 [1, 2, 3, 4] ?adj (\<lambda>v. if v = 4 then 1 else v)"
    by (simp add: valid_coloring_def adj_get_def)
  from solve_graph_coloring_complete [OF w, of 3] v w show ?thesis by blast
qed

section \<open>Degenerate inputs\<close>

text \<open>
  Claim C9.  With an empty list of variables, \<open>solve_graph_coloring\<close> returns the empty
  dictionary for every \<open>k\<close> and every adjacency: a success, not the failure signal \<open>None\<close>.
\<close>

theorem solve_graph_coloring_empty:
  "solve_graph_coloring k [] adj = Inr (Some [])"
  by (simp add: solve_graph_coloring_def empty_found_def)

text \<open>
  Claim C10.  For \<open>k \<le> 0\<close>, a non-empty list of variables and an adjacency that names
  variables only, \<open>solve_graph_coloring\<close> returns \<open>None\<close>, whether or not the graph has edges:
  every initial domain is empty, the first propagation removes nothing and succeeds, and the
  check for an empty domain after it rejects before the search begins.
\<close>

theorem solve_graph_coloring_no_colors:
  assumes "k \<le> 0" and "variables \<noteq> []" and "adjacency_within variables adj"
  shows "solve_graph_coloring k variables adj = Inr None"
proof -
  let ?d = "initial_domains k variables"
  from assms(1) have "fset_of_list [1..k] = {||}" by simp
  then have all_empty: "\<forall>(v, D) \<in> set ?d. D = {||}"
    using initial_domains_props(3) [of _ _ k variables] by auto
  from ac3_all_empty [OF all_empty initial_queue_arcs [OF assms(3)]]
  have run: "ac3 (initial_queue variables adj) ?d adj [] = Inr (True, ?d, [])" .
  from assms(2) obtain v where "v \<in> set variables" by (cases variables) auto
  then have "v \<in> fst ` set ?d" by (simp add: initial_domains_props(2))
  from key_lookup [OF this] obtain D where D: "map_of ?d v = Some D" ..
  from map_of_SomeD [OF D] all_empty have "D = {||}" by auto
  with D have "empty_found ?d" unfolding empty_found_iff by blast
  with run show ?thesis by (simp add: solve_graph_coloring_unfold)
qed

theorem solve_graph_coloring_no_colors_witness:
  "(0::int) \<le> 0 \<and> [1, 2, 3] \<noteq> ([] :: int list) \<and>
   adjacency_within [1, 2, 3] (map_of [(1, [2]), (2, [1])]) \<and>
   solve_graph_coloring 0 [1, 2, 3] (map_of [(1, [2]), (2, [1])]) = Inr None"
proof -
  have a: "(0::int) \<le> 0" by simp
  have b: "[1, 2, 3] \<noteq> ([] :: int list)" by simp
  have c: "adjacency_within [1, 2, 3] (map_of [(1, [2]), (2, [1])])"
    by (simp add: adjacency_within_def adj_get_def)
  from solve_graph_coloring_no_colors [OF a b c] a b c show ?thesis by blast
qed

end
